theory Spec2Isabelle
  imports Main
begin

section \<open>The browser pool of \<open>BrowserPoolService\<close>\<close>

text \<open>
  The pooled variant of \<open>BrowserPoolService\<close> (services/browser-pool.service.ts, the class
  with \<open>pagePool\<close> and \<open>requestQueue\<close>) keeps several browser instances, a bounded pool of
  reusable pages, a counter of active requests and a queue of pending requests.

  The service runs on a single-threaded event loop: between two \<open>await\<close>s a function runs
  without interruption. The model follows that. \<open>getPage\<close> is split where it waits for
  \<open>createNewPage\<close>. \<open>createNewPage\<close>, \<open>closePage\<close> and the sweeps each run as one block,
  with the answers of the outside world (a launch, \<open>newPage\<close>, a page reset, \<open>close()\<close>,
  \<open>Date.now()\<close>) as parameters: other calls come before or after them, not in between.
\<close>

subsection \<open>Data\<close>

type_synonym time = int

text \<open>
  A Puppeteer \<open>Page\<close> is an object compared by identity (\<open>item.page === page\<close>). The
  model gives it a number, and remembers the browser whose \<open>newPage()\<close> created it;
  the service itself keeps no such field.
\<close>

record Page =
  pageId :: nat
  pageBrowser :: nat

record PagePoolItem =
  page :: Page
  createdAt :: time
  lastUsed :: time
  isLocked :: bool

text \<open>
  \<open>browserId\<close> stands for the identity of the instance object and of its Puppeteer
  \<open>Browser\<close>; \<open>isConnected\<close> is what \<open>browser.isConnected()\<close> answers.
\<close>

record BrowserInstance =
  browserId :: nat
  isConnected :: bool
  activePages :: int
  browserCreatedAt :: time
  browserLastUsed :: time
  isHealthy :: bool

text \<open>
  A pending request carries the callbacks of the caller's promise; \<open>request\<close> is the
  number of the \<open>getPage\<close> call they belong to.
\<close>

record PendingRequest =
  request :: nat
  timestamp :: time
  priority :: int

text \<open>
  What a call can throw: \<open>NoHealthyBrowser\<close> is
  \<open>new Error("No healthy browser instances available")\<close>; the others stand for whatever
  Puppeteer threw in \<open>newPage\<close>, in \<open>configurePage\<close> or in \<open>launch\<close>, which the service logs
  and rethrows.
\<close>

datatype PoolError = NoHealthyBrowser | NewPageFailed | ConfigureFailed | LaunchFailed

text \<open>The constants of the class.\<close>

definition maxBrowsers :: nat where "maxBrowsers = 3"
definition maxPagesPerBrowser :: int where "maxPagesPerBrowser = 8"
definition browserMaxAge :: time where "browserMaxAge = 10 * 60 * 1000"
definition maxConcurrentRequests :: int where "maxConcurrentRequests = 10"
definition pagePoolSize :: nat where "pagePoolSize = 8"
definition maxPageAge :: time where "maxPageAge = 5 * 60 * 1000"

subsection \<open>Load balancing\<close>

text \<open>
  \<open>selectBestBrowser\<close>: \<open>filter\<close> on \<open>isHealthy\<close>, \<open>null\<close> when nothing is left, else
  \<open>reduce\<close> without an initial value, which starts from the first element and keeps
  \<open>best\<close> unless \<open>current.activePages < best.activePages\<close>.
\<close>

definition selectBestBrowser :: "BrowserInstance list \<Rightarrow> BrowserInstance option" where
  "selectBestBrowser bs =
     (let healthyBrowsers = filter isHealthy bs in
      case healthyBrowsers of
        [] \<Rightarrow> None
      | first # rest \<Rightarrow>
          Some (foldl (\<lambda>best current.
                  if activePages current < activePages best then current else best)
                first rest))"

subsection \<open>The pool state\<close>

text \<open>
  The first four fields are the fields of the class. \<open>closedPages\<close> and
  \<open>closeListeners\<close> are the part of Puppeteer the service looks at: which pages answer
  \<open>isClosed()\<close> with true, and on which pages \<open>configurePage\<close> has registered its
  \<open>close\<close> listener. The counters hand out fresh identities. The remaining fields are
  history, kept for stating properties: the requests suspended in
  \<open>await this.createNewPage()\<close>, the order in which requests were put on the queue, the
  order in which requests took a slot (each with the requests pending at that moment),
  what each finished \<open>getPage\<close> call returned, the pages handed out and not yet passed
  to \<open>closePage\<close>, and how often \<open>createNewPage\<close> has run its browser selection.
\<close>

record BrowserPool =
  browsers :: "BrowserInstance list"
  activeRequests :: int
  requestQueue :: "PendingRequest list"
  pagePool :: "PagePoolItem list"
  closedPages :: "Page set"
  closeListeners :: "Page set"
  nextBrowserId :: nat
  nextPageId :: nat
  requestCount :: nat
  creating :: "nat list"
  enqueued :: "nat list"
  granted :: "(nat \<times> nat list) list"
  settled :: "(nat \<times> (PoolError + Page)) list"
  onLoan :: "Page list"
  selections :: nat

definition emptyPool :: BrowserPool where
  "emptyPool = \<lparr> browsers = [], activeRequests = 0, requestQueue = [], pagePool = [],
     closedPages = {}, closeListeners = {}, nextBrowserId = 0, nextPageId = 0,
     requestCount = 0, creating = [], enqueued = [], granted = [], settled = [],
     onLoan = [], selections = 0 \<rparr>"

subsection \<open>Array helpers\<close>

text \<open>\<open>findIndex\<close> of JavaScript, with \<open>None\<close> for \<open>-1\<close>; \<open>splice(i, 1)\<close>.\<close>

fun findIndex :: "('a \<Rightarrow> bool) \<Rightarrow> 'a list \<Rightarrow> nat option" where
  "findIndex P [] = None"
| "findIndex P (x # xs) =
     (if P x then Some 0 else map_option Suc (findIndex P xs))"

definition splice1 :: "nat \<Rightarrow> 'a list \<Rightarrow> 'a list" where
  "splice1 i xs = take i xs @ drop (Suc i) xs"

subsection \<open>Browser instances\<close>

text \<open>
  \<open>createBrowserInstance\<close>: when \<open>puppeteer.launch\<close> succeeds the new instance is
  pushed; when it throws, the error is rethrown and nothing changes.
\<close>

definition createBrowserInstance :: "time \<Rightarrow> bool \<Rightarrow> BrowserPool \<Rightarrow> PoolError + BrowserPool" where
  "createBrowserInstance now launchOk s =
     (if launchOk then
        Inr (s\<lparr> browsers := browsers s @
                  [\<lparr> browserId = nextBrowserId s, isConnected = True, activePages = 0,
                     browserCreatedAt = now, browserLastUsed = now, isHealthy = True \<rparr>],
                nextBrowserId := Suc (nextBrowserId s) \<rparr>)
      else Inl LaunchFailed)"

text \<open>
  \<open>initializeBrowsers\<close>: nothing when there are browsers already; else \<open>maxBrowsers\<close>
  launches, of which those numbered in \<open>failing\<close> throw. A failed launch makes the call
  throw, and the instances that did launch stay in the array.
\<close>

definition initializeBrowsers :: "time \<Rightarrow> nat list \<Rightarrow> BrowserPool \<Rightarrow> BrowserPool" where
  "initializeBrowsers now failing s =
     (if length (browsers s) > 0 then s
      else foldl (\<lambda>s' index. case createBrowserInstance now (index \<notin> set failing) s' of
                                 Inl e \<Rightarrow> s' | Inr s'' \<Rightarrow> s'')
             s [0 ..< maxBrowsers])"

text \<open>The listeners registered on a browser: \<open>disconnected\<close> and \<open>targetdestroyed\<close>.\<close>

definition onDisconnected :: "nat \<Rightarrow> BrowserPool \<Rightarrow> BrowserPool" where
  "onDisconnected b s =
     s\<lparr> browsers := map (\<lambda>inst. if browserId inst = b
                                  then inst\<lparr> isConnected := False, isHealthy := False \<rparr>
                                  else inst) (browsers s) \<rparr>"

definition onTargetDestroyed :: "nat \<Rightarrow> BrowserPool \<Rightarrow> BrowserPool" where
  "onTargetDestroyed b s =
     s\<lparr> browsers := map (\<lambda>inst. if browserId inst = b
                                  then inst\<lparr> activePages := max 0 (activePages inst - 1) \<rparr>
                                  else inst) (browsers s) \<rparr>"

text \<open>
  The loop that the service runs after closing a page, three times in the source (the
  \<open>close\<close> listener, \<open>closePage\<close>, \<open>removePageFromPool\<close>): the first instance whose
  browser is connected has its count lowered, not below zero, and the loop breaks.
\<close>

fun decrementFirstConnected :: "BrowserInstance list \<Rightarrow> BrowserInstance list" where
  "decrementFirstConnected [] = []"
| "decrementFirstConnected (browserInstance # rest) =
     (if isConnected browserInstance
      then browserInstance\<lparr> activePages := max 0 (activePages browserInstance - 1) \<rparr> # rest
      else browserInstance # decrementFirstConnected rest)"

definition updatePageCount :: "BrowserPool \<Rightarrow> BrowserPool" where
  "updatePageCount s = s\<lparr> browsers := decrementFirstConnected (browsers s) \<rparr>"

text \<open>
  \<open>page.close()\<close> of Puppeteer: the page is closed from then on and emits \<open>close\<close>, so
  the listener of \<open>configurePage\<close> runs if the page has one.
\<close>

definition pageClose :: "Page \<Rightarrow> BrowserPool \<Rightarrow> BrowserPool" where
  "pageClose p s =
     (let s1 = s\<lparr> closedPages := insert p (closedPages s) \<rparr>
      in if p \<in> closeListeners s then updatePageCount s1 else s1)"

text \<open>
  \<open>replaceUnhealthyBrowser\<close>: close the old browser, remove the instance from the array
  if it is there, launch a new one. Every error is caught and logged: when \<open>close\<close>
  throws, the instance stays in the array and nothing is launched; when the launch
  throws, the instance is gone and nothing replaces it.
\<close>

datatype ReplaceOutcome = CloseThrows | LaunchThrows | Replaced

definition replaceUnhealthyBrowser ::
    "time \<Rightarrow> ReplaceOutcome \<Rightarrow> BrowserInstance \<Rightarrow> BrowserPool \<Rightarrow> BrowserPool" where
  "replaceUnhealthyBrowser now outcome browserInstance s =
     (if outcome = CloseThrows then s
      else
        let s1 = (case findIndex (\<lambda>inst. browserId inst = browserId browserInstance) (browsers s) of
                    Some index \<Rightarrow> s\<lparr> browsers := splice1 index (browsers s) \<rparr>
                  | None \<Rightarrow> s)
        in case createBrowserInstance now (outcome = Replaced) s1 of
             Inl e \<Rightarrow> s1
           | Inr s2 \<Rightarrow> s2)"

subsection \<open>Taking and creating pages\<close>

text \<open>
  \<open>getPooledPage\<close>: the first item that is unlocked and was used less than \<open>maxPageAge\<close>
  ago is locked, stamped and its page returned.
\<close>

definition getPooledPage :: "time \<Rightarrow> BrowserPool \<Rightarrow> Page option \<times> BrowserPool" where
  "getPooledPage now s =
     (case findIndex (\<lambda>item. \<not> isLocked item \<and> now - lastUsed item < maxPageAge) (pagePool s) of
        None \<Rightarrow> (None, s)
      | Some availablePageIndex \<Rightarrow>
          let pageItem = pagePool s ! availablePageIndex
          in (Some (page pageItem),
              s\<lparr> pagePool := (pagePool s)[availablePageIndex :=
                                 pageItem\<lparr> isLocked := True, lastUsed := now \<rparr>] \<rparr>))"

text \<open>
  \<open>createNewPage\<close>. The answers of the outside are parameters: one \<open>ReplaceOutcome\<close> for
  each call of \<open>replaceUnhealthyBrowser\<close>, and what happens to \<open>newPage\<close> and
  \<open>configurePage\<close>. After a replacement the function calls itself. When the list of
  replacement outcomes is used up the call is still waiting and there is no result
  (\<open>None\<close>). \<open>bestBrowser.activePages++\<close> changes the instance in the array, found by
  its identity.
\<close>

datatype CreateOutcome = NewPageThrows | ConfigureThrows | PageConfigured

fun createNewPage ::
    "time \<Rightarrow> ReplaceOutcome list \<Rightarrow> CreateOutcome \<Rightarrow> BrowserPool
       \<Rightarrow> (PoolError + Page) option \<times> BrowserPool" where
  "createNewPage now outcomes created s0 =
     (let s = s0\<lparr> selections := Suc (selections s0) \<rparr> in
      case selectBestBrowser (browsers s) of
        None \<Rightarrow> (Some (Inl NoHealthyBrowser), s)
      | Some bestBrowser \<Rightarrow>
          if activePages bestBrowser \<ge> maxPagesPerBrowser then
            (case outcomes of
               [] \<Rightarrow> (None, s)
             | outcome # outcomes' \<Rightarrow>
                 createNewPage now outcomes' created
                   (replaceUnhealthyBrowser now outcome bestBrowser s))
          else if created = NewPageThrows then (Some (Inl NewPageFailed), s)
          else
            let p = \<lparr> pageId = nextPageId s, pageBrowser = browserId bestBrowser \<rparr>;
                s1 = s\<lparr> browsers :=
                          map (\<lambda>inst. if browserId inst = browserId bestBrowser
                                       then inst\<lparr> activePages := activePages inst + 1,
                                                  browserLastUsed := now \<rparr>
                                       else inst) (browsers s),
                        nextPageId := Suc (nextPageId s) \<rparr>
            in if created = ConfigureThrows then (Some (Inl ConfigureFailed), s1)
               else
                 let s2 = s1\<lparr> closeListeners := insert p (closeListeners s1) \<rparr>;
                     s3 = (if length (pagePool s2) < pagePoolSize
                           then s2\<lparr> pagePool := pagePool s2 @
                                      [\<lparr> page = p, createdAt = now, lastUsed = now,
                                         isLocked = True \<rparr>] \<rparr>
                           else s2)
                 in (Some (Inr p), s3))"

subsection \<open>Admission\<close>

text \<open>
  \<open>getPage\<close> and \<open>processNextQueuedRequest\<close> call each other. \<open>getPage now r s\<close> is the
  run of \<open>getPage\<close> for request \<open>r\<close> from its entry to its first suspension:
  \<^item> at the limit, a pending request is pushed and the call ends (its promise is settled
    later, through the queue);
  \<^item> else the counter goes up. With a pooled page the call returns at once, through the
    \<open>finally\<close> block (counter down, \<open>processNextQueuedRequest\<close>). Without one the call
    waits in \<open>await this.createNewPage()\<close>; \<open>resumeGetPage\<close> below is its continuation.

  \<open>processNextQueuedRequest\<close> shifts the head of the queue and calls \<open>getPage\<close> for it,
  which runs up to its first suspension before \<open>processNextQueuedRequest\<close> returns.
\<close>

function getPage :: "time \<Rightarrow> nat \<Rightarrow> BrowserPool \<Rightarrow> BrowserPool"
  and processNextQueuedRequest :: "time \<Rightarrow> BrowserPool \<Rightarrow> BrowserPool" where
  "getPage now r s =
     (if activeRequests s \<ge> maxConcurrentRequests then
        s\<lparr> requestQueue := requestQueue s @ [\<lparr> request = r, timestamp = now, priority = 1 \<rparr>],
           enqueued := enqueued s @ [r] \<rparr>
      else
        let s1 = s\<lparr> activeRequests := activeRequests s + 1,
                    granted := granted s @ [(r, map request (requestQueue s))] \<rparr>
        in case getPooledPage now s1 of
             (Some pooledPage, s2) \<Rightarrow>
               let s3 = s2\<lparr> settled := settled s2 @ [(r, Inr pooledPage)],
                            onLoan := onLoan s2 @ [pooledPage] \<rparr>
               in processNextQueuedRequest now (s3\<lparr> activeRequests := activeRequests s3 - 1 \<rparr>)
           | (None, s2) \<Rightarrow> s2\<lparr> creating := creating s2 @ [r] \<rparr>)"
| "processNextQueuedRequest now s =
     (if length (requestQueue s) > 0 \<and> activeRequests s < maxConcurrentRequests then
        (case requestQueue s of
           [] \<Rightarrow> s
         | nextRequest # rest \<Rightarrow> getPage now (request nextRequest) (s\<lparr> requestQueue := rest \<rparr>))
      else s)"
  by pat_completeness auto

termination
proof (relation "measure (\<lambda>x. case x of
          Inl (now, r, s) \<Rightarrow> 2 * length (requestQueue s) + 1
        | Inr (now, s) \<Rightarrow> 2 * length (requestQueue s))", goal_cases)
  case 1
  show ?case by simp
next
  case (2 now r s s1 x y pooledPage s3)
  from 2(3) [symmetric] have "requestQueue y = requestQueue s1"
    by (auto simp: getPooledPage_def Let_def split: option.splits)
  with 2 show ?case by simp
next
  case (3 now s nextRequest rest)
  then show ?case by simp
qed

text \<open>
  The continuation of a \<open>getPage\<close> call suspended in \<open>createNewPage\<close>: when
  \<open>createNewPage\<close> has a result (a page or an error) the call leaves through the
  \<open>finally\<close> block; when \<open>createNewPage\<close> is still waiting, so is the call.
\<close>

definition resumeGetPage ::
    "time \<Rightarrow> nat \<Rightarrow> ReplaceOutcome list \<Rightarrow> CreateOutcome \<Rightarrow> BrowserPool \<Rightarrow> BrowserPool" where
  "resumeGetPage now r outcomes created s =
     (case createNewPage now outcomes created s of
        (None, s1) \<Rightarrow> s1
      | (Some result, s1) \<Rightarrow>
          let s2 = s1\<lparr> creating := remove1 r (creating s1),
                       settled := settled s1 @ [(r, result)],
                       onLoan := (case result of Inl e \<Rightarrow> onLoan s1 | Inr p \<Rightarrow> onLoan s1 @ [p]) \<rparr>
          in processNextQueuedRequest now (s2\<lparr> activeRequests := activeRequests s2 - 1 \<rparr>))"

subsection \<open>Giving pages back\<close>

text \<open>
  \<open>removePageFromPool\<close>: the item is spliced out if it is in the pool; then, if the page
  is not closed, it is closed and the page count lowered. An item is found by its page.
  \<open>closeOk\<close> tells whether \<open>page.close()\<close> succeeds; an error is caught and logged.
\<close>

definition removePageFromPool :: "bool \<Rightarrow> PagePoolItem \<Rightarrow> BrowserPool \<Rightarrow> BrowserPool" where
  "removePageFromPool closeOk pageItem s =
     (let s1 = (case findIndex (\<lambda>item. page item = page pageItem) (pagePool s) of
                  Some index \<Rightarrow> s\<lparr> pagePool := splice1 index (pagePool s) \<rparr>
                | None \<Rightarrow> s)
      in if page pageItem \<notin> closedPages s1 \<and> closeOk
         then updatePageCount (pageClose (page pageItem) s1)
         else s1)"

text \<open>
  \<open>returnPageToPool\<close>: when the reset succeeds the item is unlocked and stamped; when it
  throws, the item is removed from the pool.
\<close>

definition returnPageToPool ::
    "time \<Rightarrow> bool \<Rightarrow> bool \<Rightarrow> PagePoolItem \<Rightarrow> BrowserPool \<Rightarrow> BrowserPool" where
  "returnPageToPool now resetOk closeOk pageItem s =
     (if resetOk then
        s\<lparr> pagePool := map (\<lambda>item. if page item = page pageItem
                                    then item\<lparr> isLocked := False, lastUsed := now \<rparr>
                                    else item) (pagePool s) \<rparr>
      else removePageFromPool closeOk pageItem s)"

text \<open>
  \<open>closePage\<close>. The caller gives the page back, so the page is no longer on loan
  whatever happens to it.
\<close>

definition closePage :: "time \<Rightarrow> bool \<Rightarrow> bool \<Rightarrow> Page \<Rightarrow> BrowserPool \<Rightarrow> BrowserPool" where
  "closePage now resetOk closeOk p s0 =
     (let s = s0\<lparr> onLoan := remove1 p (onLoan s0) \<rparr> in
      case find (\<lambda>item. page item = p) (pagePool s) of
        Some pageItem \<Rightarrow> returnPageToPool now resetOk closeOk pageItem s
      | None \<Rightarrow>
          if p \<notin> closedPages s \<and> closeOk
          then updatePageCount (pageClose p s)
          else s)"

subsection \<open>Sweeps, shutdown and restart\<close>

text \<open>
  \<open>cleanupPagePool\<close>: the items that are too old, or idle too long and unlocked, are
  collected and then removed one by one. \<open>closeFails\<close> lists the pages whose \<open>close()\<close>
  throws.
\<close>

definition cleanupPagePool :: "time \<Rightarrow> Page list \<Rightarrow> BrowserPool \<Rightarrow> BrowserPool" where
  "cleanupPagePool now closeFails s =
     (let pagesToRemove =
            filter (\<lambda>pageItem. now - createdAt pageItem > maxPageAge \<or>
                       (now - lastUsed pageItem > maxPageAge \<and> \<not> isLocked pageItem))
                   (pagePool s)
      in foldl (\<lambda>s' pageItem. removePageFromPool (page pageItem \<notin> set closeFails) pageItem s')
           s pagesToRemove)"

text \<open>
  \<open>performBrowserHealthCheck\<close>: an instance that is both too old and unhealthy is
  collected twice. The replacements run one after the other, each with its outcome;
  those without an outcome have not happened yet.
\<close>

definition performBrowserHealthCheck ::
    "time \<Rightarrow> ReplaceOutcome list \<Rightarrow> BrowserPool \<Rightarrow> BrowserPool" where
  "performBrowserHealthCheck now outcomes s =
     (let browsersToReplace =
            concat (map (\<lambda>browserInstance.
                (if now - browserCreatedAt browserInstance > browserMaxAge \<or>
                    (now - browserLastUsed browserInstance > browserMaxAge \<and>
                     activePages browserInstance = 0)
                 then [browserInstance] else []) @
                (if \<not> isHealthy browserInstance then [browserInstance] else []))
              (browsers s))
      in foldl (\<lambda>s' (browserInstance, outcome).
                   replaceUnhealthyBrowser now outcome browserInstance s')
           s (zip browsersToReplace outcomes))"

text \<open>
  \<open>closeAllBrowsers\<close> closes the pooled pages that are not closed yet, empties the pool,
  closes the browsers and empties the array; \<open>restartBrowsers\<close> initializes again.
\<close>

definition closeAllBrowsers :: "Page list \<Rightarrow> BrowserPool \<Rightarrow> BrowserPool" where
  "closeAllBrowsers closeFails s =
     (let s1 = foldl (\<lambda>s' pageItem.
                   if page pageItem \<notin> closedPages s' \<and> page pageItem \<notin> set closeFails
                   then pageClose (page pageItem) s' else s')
                 s (pagePool s)
      in s1\<lparr> pagePool := [], browsers := [] \<rparr>)"

definition restartBrowsers ::
    "time \<Rightarrow> Page list \<Rightarrow> nat list \<Rightarrow> BrowserPool \<Rightarrow> BrowserPool" where
  "restartBrowsers now closeFails failing s =
     initializeBrowsers now failing (closeAllBrowsers closeFails s)"

subsection \<open>Runs of the service\<close>

text \<open>
  What can happen to the pool, one event per uninterrupted run: the calls of the public
  methods, the resumption of a suspended \<open>getPage\<close>, the two sweeps, and what Puppeteer
  reports by itself (a browser disconnects, a target is destroyed, a page closes without
  the pool having closed it). A new \<open>getPage\<close> call gets the next request number.
\<close>

datatype Event =
    InitializeBrowsers time "nat list"
  | GetPage time
  | ResumeGetPage time nat "ReplaceOutcome list" CreateOutcome
  | ClosePage time bool bool Page
  | CleanupPagePool time "Page list"
  | BrowserHealthCheck time "ReplaceOutcome list"
  | RestartBrowsers time "Page list" "nat list"
  | BrowserDisconnected nat
  | TargetDestroyed nat
  | PageClosed Page

fun step :: "Event \<Rightarrow> BrowserPool \<Rightarrow> BrowserPool" where
  "step (InitializeBrowsers now failing) s = initializeBrowsers now failing s"
| "step (GetPage now) s = getPage now (requestCount s) (s\<lparr> requestCount := Suc (requestCount s) \<rparr>)"
| "step (ResumeGetPage now r outcomes created) s =
     (if r \<in> set (creating s) then resumeGetPage now r outcomes created s else s)"
| "step (ClosePage now resetOk closeOk p) s = closePage now resetOk closeOk p s"
| "step (CleanupPagePool now closeFails) s = cleanupPagePool now closeFails s"
| "step (BrowserHealthCheck now outcomes) s = performBrowserHealthCheck now outcomes s"
| "step (RestartBrowsers now closeFails failing) s = restartBrowsers now closeFails failing s"
| "step (BrowserDisconnected b) s = onDisconnected b s"
| "step (TargetDestroyed b) s = onTargetDestroyed b s"
| "step (PageClosed p) s = (if p \<in> closedPages s then s else pageClose p s)"

definition exec :: "Event list \<Rightarrow> BrowserPool \<Rightarrow> BrowserPool" where
  "exec evs s = foldl (\<lambda>s' e. step e s') s evs"

section \<open>Invariants\<close>

text \<open>
  The notions used to state and prove the properties below. None of them is part of the
  service.
\<close>

subsection \<open>Admission\<close>

text \<open>
  The first step of \<open>getPage\<close> below the limit: the counter goes up, and the grant is
  recorded together with the requests pending at that moment.
\<close>

definition takeSlot :: "nat \<Rightarrow> BrowserPool \<Rightarrow> BrowserPool" where
  "takeSlot r s = s\<lparr> activeRequests := activeRequests s + 1,
                      granted := granted s @ [(r, map request (requestQueue s))] \<rparr>"

text \<open>
  The fields that admission reads and writes. Everything but \<open>getPage\<close>,
  \<open>processNextQueuedRequest\<close> and \<open>resumeGetPage\<close> leaves them alone.
\<close>

definition sameAdmission :: "BrowserPool \<Rightarrow> BrowserPool \<Rightarrow> bool" where
  "sameAdmission s s' \<longleftrightarrow>
     activeRequests s' = activeRequests s \<and> requestQueue s' = requestQueue s \<and>
     enqueued s' = enqueued s \<and> granted s' = granted s \<and> requestCount s' = requestCount s \<and>
     creating s' = creating s"

text \<open>
  First in, first out, on the history: \<open>E\<close> is the order of enqueueing, \<open>G\<close> the grants, \<open>Q\<close>
  the queue and \<open>n\<close> the number of requests so far. \<open>hand\<close> holds the request that
  \<open>processNextQueuedRequest\<close> has just shifted from the queue and that has not taken its
  slot yet; between two runs it is empty. The enqueued requests are those that went through
  the queue and have a slot, in that order, then the one in hand, then the queue; they were
  enqueued in order of arrival; and at each grant the pending requests were younger.
\<close>

definition fifoV ::
    "nat list \<Rightarrow> nat list \<Rightarrow> (nat \<times> nat list) list \<Rightarrow> nat list \<Rightarrow> nat \<Rightarrow> bool" where
  "fifoV hand E G Q n \<longleftrightarrow>
     E = filter (\<lambda>r. r \<in> set E) (map fst G) @ hand @ Q \<and>
     sorted_wrt (<) E \<and> (\<forall>r\<in>set E. r < n) \<and> (\<forall>r\<in>set (map fst G). r < n) \<and>
     (\<forall>(r, pend)\<in>set G. \<forall>r'\<in>set pend. r < r')"

definition fifo :: "nat list \<Rightarrow> BrowserPool \<Rightarrow> bool" where
  "fifo hand s \<longleftrightarrow>
     fifoV hand (enqueued s) (granted s) (map request (requestQueue s)) (requestCount s)"

text \<open>The counter is within the limit, and requests wait only while it is at the limit.\<close>

definition adm :: "BrowserPool \<Rightarrow> bool" where
  "adm s \<longleftrightarrow> activeRequests s \<le> maxConcurrentRequests \<and>
     (requestQueue s \<noteq> [] \<longrightarrow> activeRequests s = maxConcurrentRequests)"

definition admissionInv :: "BrowserPool \<Rightarrow> bool" where
  "admissionInv s \<longleftrightarrow> fifo [] s \<and> adm s"

text \<open>
  What holds when \<open>getPage\<close> is entered: by a new caller \<open>r\<close>, younger than every request
  seen so far; or for a request \<open>r\<close> just shifted from the queue. And what holds when
  \<open>processNextQueuedRequest\<close> is entered, right after the counter went down.
\<close>

definition freshCall :: "nat \<Rightarrow> BrowserPool \<Rightarrow> bool" where
  "freshCall r s \<longleftrightarrow> fifo [] s \<and> adm s \<and> (\<forall>x\<in>set (enqueued s). x < r) \<and>
      (\<forall>x\<in>set (map fst (granted s)). x < r) \<and> r < requestCount s"

definition wokenCall :: "nat \<Rightarrow> BrowserPool \<Rightarrow> bool" where
  "wokenCall r s \<longleftrightarrow> fifo [r] s \<and> activeRequests s < maxConcurrentRequests \<and>
      (requestQueue s \<noteq> [] \<longrightarrow> activeRequests s = maxConcurrentRequests - 1)"

definition slotFreed :: "BrowserPool \<Rightarrow> bool" where
  "slotFreed s \<longleftrightarrow> fifo [] s \<and> activeRequests s < maxConcurrentRequests \<and>
      (requestQueue s \<noteq> [] \<longrightarrow> activeRequests s = maxConcurrentRequests - 1)"

text \<open>The logs of grants and of results only grow.\<close>

definition logsExtend :: "BrowserPool \<Rightarrow> BrowserPool \<Rightarrow> bool" where
  "logsExtend s s' \<longleftrightarrow>
     (\<exists>more. granted s' = granted s @ more) \<and> (\<exists>more. settled s' = settled s @ more)"

subsection \<open>The page pool\<close>

text \<open>
  The fields that the page pool invariant speaks of. Only taking a pooled page, creating a
  page and giving a page back change them.
\<close>

definition samePool :: "BrowserPool \<Rightarrow> BrowserPool \<Rightarrow> bool" where
  "samePool s s' \<longleftrightarrow>
     pagePool s' = pagePool s \<and> onLoan s' = onLoan s \<and> nextPageId s' = nextPageId s"

text \<open>
  The pool is within its size and holds no page twice; no page is on loan twice; the page
  of an unlocked item is not on loan; and every page in the pool or on loan has been created.
\<close>

definition poolInv :: "BrowserPool \<Rightarrow> bool" where
  "poolInv s \<longleftrightarrow>
     length (pagePool s) \<le> pagePoolSize \<and>
     distinct (map page (pagePool s)) \<and> distinct (onLoan s) \<and>
     (\<forall>item\<in>set (pagePool s). \<not> isLocked item \<longrightarrow> page item \<notin> set (onLoan s)) \<and>
     (\<forall>item\<in>set (pagePool s). pageId (page item) < nextPageId s) \<and>
     (\<forall>p\<in>set (onLoan s). pageId p < nextPageId s)"


section \<open>Properties\<close>

subsection \<open>Unfolding the functions\<close>

declare getPage.simps [simp del] processNextQueuedRequest.simps [simp del]
declare createNewPage.simps [simp del]

lemma exec_Nil: "exec [] s = s" by (simp add: exec_def)

lemma exec_snoc: "exec (evs @ [e]) s = step e (exec evs s)" by (simp add: exec_def)

lemma exec_induct:
  assumes "P emptyPool" and "\<And>e s. P s \<Longrightarrow> P (step e s)"
  shows "P (exec evs emptyPool)"
proof (induction evs rule: rev_induct)
  case Nil
  show ?case using assms(1) by (simp add: exec_Nil)
next
  case (snoc e evs)
  then show ?case using assms(2) by (simp add: exec_snoc)
qed

lemma createNewPage_none:
  "selectBestBrowser (browsers s) = None \<Longrightarrow>
   createNewPage now ros co s = (Some (Inl NoHealthyBrowser), s\<lparr>selections := Suc (selections s)\<rparr>)"
  by (simp add: createNewPage.simps Let_def)

lemma createNewPage_full_Nil:
  "selectBestBrowser (browsers s) = Some best \<Longrightarrow> activePages best \<ge> maxPagesPerBrowser \<Longrightarrow>
   createNewPage now [] co s = (None, s\<lparr>selections := Suc (selections s)\<rparr>)"
  by (simp add: createNewPage.simps Let_def)

lemma createNewPage_full_Cons:
  "selectBestBrowser (browsers s) = Some best \<Longrightarrow> activePages best \<ge> maxPagesPerBrowser \<Longrightarrow>
   createNewPage now (ro # ros) co s =
     createNewPage now ros co (replaceUnhealthyBrowser now ro best (s\<lparr>selections := Suc (selections s)\<rparr>))"
  by (subst createNewPage.simps) (simp add: Let_def)

lemma createNewPage_room:
  "selectBestBrowser (browsers s) = Some best \<Longrightarrow> \<not> activePages best \<ge> maxPagesPerBrowser \<Longrightarrow>
   createNewPage now ros co s =
     (if co = NewPageThrows then (Some (Inl NewPageFailed), s\<lparr>selections := Suc (selections s)\<rparr>)
      else
        let p = \<lparr> pageId = nextPageId s, pageBrowser = browserId best \<rparr>;
            s1 = s\<lparr> selections := Suc (selections s),
                    browsers := map (\<lambda>inst. if browserId inst = browserId best
                                       then inst\<lparr> activePages := activePages inst + 1,
                                                  browserLastUsed := now \<rparr>
                                       else inst) (browsers s),
                    nextPageId := Suc (nextPageId s) \<rparr>
        in if co = ConfigureThrows then (Some (Inl ConfigureFailed), s1)
           else (Some (Inr p),
                 if length (pagePool s) < pagePoolSize
                 then s1\<lparr> closeListeners := insert p (closeListeners s),
                          pagePool := pagePool s @ [\<lparr> page = p, createdAt = now, lastUsed = now, isLocked = True \<rparr>] \<rparr>
                 else s1\<lparr> closeListeners := insert p (closeListeners s) \<rparr>))"
  by (subst createNewPage.simps) (simp add: Let_def)

lemma createNewPage_cases [consumes 1, case_names NoHealthy Waiting Retry Room]:
  assumes "createNewPage now ros co s = (x, s')"
  obtains "selectBestBrowser (browsers s) = None"
  | best where "selectBestBrowser (browsers s) = Some best" "activePages best \<ge> maxPagesPerBrowser" "ros = []"
  | best ro ros' where "selectBestBrowser (browsers s) = Some best" "activePages best \<ge> maxPagesPerBrowser" "ros = ro # ros'"
  | best where "selectBestBrowser (browsers s) = Some best" "\<not> activePages best \<ge> maxPagesPerBrowser"
  by (cases "selectBestBrowser (browsers s)"; cases ros) auto

lemma createNewPage_rule:
  assumes run: "createNewPage now ros co s = (x, s')" and pre: "P s"
    and rep: "\<And>t ro b. P t \<Longrightarrow> P (replaceUnhealthyBrowser now ro b (t\<lparr>selections := Suc (selections t)\<rparr>))"
    and none: "\<And>t. P t \<Longrightarrow> selectBestBrowser (browsers t) = None \<Longrightarrow>
                 Q (Some (Inl NoHealthyBrowser)) (t\<lparr>selections := Suc (selections t)\<rparr>)"
    and wait: "\<And>t b. P t \<Longrightarrow> selectBestBrowser (browsers t) = Some b \<Longrightarrow>
                 activePages b \<ge> maxPagesPerBrowser \<Longrightarrow> Q None (t\<lparr>selections := Suc (selections t)\<rparr>)"
    and room: "\<And>t b y t'. P t \<Longrightarrow> selectBestBrowser (browsers t) = Some b \<Longrightarrow>
                 \<not> activePages b \<ge> maxPagesPerBrowser \<Longrightarrow> createNewPage now [] co t = (y, t') \<Longrightarrow> Q y t'"
  shows "Q x s'"
  using run pre
proof (induction ros arbitrary: s)
  case Nil
  from Nil.prems(1) show ?case
  proof (cases rule: createNewPage_cases)
    case NoHealthy
    with Nil.prems none [of s] show ?thesis by (auto simp: createNewPage_none)
  next
    case (Waiting best)
    with Nil.prems wait [of s best] show ?thesis by (auto simp: createNewPage_full_Nil)
  next
    case (Retry best ro ros')
    then show ?thesis by simp
  next
    case (Room best)
    with Nil.prems room [of s best x s'] show ?thesis by simp
  qed
next
  case (Cons ro ros)
  from Cons.prems(1) show ?case
  proof (cases rule: createNewPage_cases)
    case NoHealthy
    with Cons.prems none [of s] show ?thesis by (auto simp: createNewPage_none)
  next
    case (Waiting best)
    then show ?thesis by simp
  next
    case (Retry best ro' ros')
    let ?s = "s\<lparr>selections := Suc (selections s)\<rparr>"
    from Retry Cons.prems have
      "createNewPage now ros co (replaceUnhealthyBrowser now ro best ?s) = (x, s')"
      by (simp add: createNewPage_full_Cons)
    moreover have "P (replaceUnhealthyBrowser now ro best ?s)" using Cons.prems(2) by (rule rep)
    ultimately show ?thesis by (rule Cons.IH)
  next
    case (Room best)
    have "createNewPage now [] co s = createNewPage now (ro # ros) co s"
      using Room by (simp add: createNewPage_room)
    with Room Cons.prems room [of s best x s'] show ?thesis by simp
  qed
qed

lemma getPage_full:
  "activeRequests s \<ge> maxConcurrentRequests \<Longrightarrow>
   getPage now r s = s\<lparr> requestQueue := requestQueue s @ [\<lparr> request = r, timestamp = now, priority = 1 \<rparr>],
                         enqueued := enqueued s @ [r] \<rparr>"
  by (simp add: getPage.simps)

lemma getPage_pooled:
  "\<not> activeRequests s \<ge> maxConcurrentRequests \<Longrightarrow>
   getPooledPage now (takeSlot r s) = (Some pooledPage, s2) \<Longrightarrow>
   getPage now r s =
     processNextQueuedRequest now
       (s2\<lparr> settled := settled s2 @ [(r, Inr pooledPage)], onLoan := onLoan s2 @ [pooledPage],
            activeRequests := activeRequests s2 - 1 \<rparr>)"
  by (subst getPage.simps) (simp add: takeSlot_def Let_def)

lemma getPage_miss:
  "\<not> activeRequests s \<ge> maxConcurrentRequests \<Longrightarrow>
   getPooledPage now (takeSlot r s) = (None, s2) \<Longrightarrow>
   getPage now r s = s2\<lparr> creating := creating s2 @ [r] \<rparr>"
  by (subst getPage.simps) (simp add: takeSlot_def Let_def)

lemma processNext_idle:
  "\<not> (requestQueue s \<noteq> [] \<and> activeRequests s < maxConcurrentRequests) \<Longrightarrow>
   processNextQueuedRequest now s = s"
  by (subst processNextQueuedRequest.simps) auto

lemma processNext_wake:
  "requestQueue s = nextRequest # rest \<Longrightarrow> activeRequests s < maxConcurrentRequests \<Longrightarrow>
   processNextQueuedRequest now s = getPage now (request nextRequest) (s\<lparr> requestQueue := rest \<rparr>)"
  by (subst processNextQueuedRequest.simps) auto

lemma findIndex_Some:
  "findIndex P xs = Some i \<Longrightarrow> i < length xs \<and> P (xs ! i) \<and> (\<forall>j<i. \<not> P (xs ! j))"
proof (induction xs arbitrary: i)
  case Nil
  then show ?case by simp
next
  case (Cons x xs)
  show ?case
  proof (cases "P x")
    case True
    with Cons.prems show ?thesis by simp
  next
    case False
    with Cons.prems obtain i' where i: "findIndex P xs = Some i'" "i = Suc i'" by auto
    from Cons.IH [OF i(1)] False i(2) show ?thesis by (auto simp: less_Suc_eq_0_disj)
  qed
qed

lemma findIndex_None: "findIndex P xs = None \<longleftrightarrow> (\<forall>x\<in>set xs. \<not> P x)"
  by (induction xs) auto

lemma getPooledPage_Some:
  assumes "getPooledPage now s = (Some p, s')"
  shows "\<exists>i. i < length (pagePool s) \<and> page (pagePool s ! i) = p \<and> \<not> isLocked (pagePool s ! i) \<and>
             now - lastUsed (pagePool s ! i) < maxPageAge \<and>
             (\<forall>j<i. isLocked (pagePool s ! j) \<or> \<not> now - lastUsed (pagePool s ! j) < maxPageAge) \<and>
             s' = s\<lparr> pagePool := (pagePool s)[i := (pagePool s ! i)\<lparr> isLocked := True, lastUsed := now \<rparr>] \<rparr>"
proof -
  let ?P = "\<lambda>item. \<not> isLocked item \<and> now - lastUsed item < maxPageAge"
  from assms obtain i where i: "findIndex ?P (pagePool s) = Some i"
    by (auto simp: getPooledPage_def Let_def split: option.splits)
  from findIndex_Some [OF i] assms i show ?thesis
    by (auto simp: getPooledPage_def Let_def)
qed

lemma getPooledPage_None: "getPooledPage now s = (None, s2) \<Longrightarrow> s2 = s"
  by (auto simp: getPooledPage_def Let_def split: option.splits)

lemma getPooledPage_frame:
  "getPooledPage now s = (x, s') \<Longrightarrow> \<exists>pp. s' = s\<lparr> pagePool := pp \<rparr>"
  by (auto simp: getPooledPage_def Let_def split: option.splits intro: exI [of _ "pagePool s"])

lemma getPooledPage_miss:
  "fst (getPooledPage now s) = None \<Longrightarrow> pagePool t = pagePool s \<Longrightarrow> getPooledPage now t = (None, t)"
  by (auto simp: getPooledPage_def Let_def split: option.splits)

lemma set_splice1: "set (splice1 i xs) \<subseteq> set xs"
  unfolding splice1_def using set_take_subset [of i xs] set_drop_subset [of "Suc i" xs] by auto

lemma length_splice1: "length (splice1 i xs) \<le> length xs"
  by (simp add: splice1_def)

lemma distinct_map_splice1:
  assumes "distinct (map f xs)"
  shows "distinct (map f (splice1 i xs))"
proof (cases "i < length xs")
  case False
  then have "splice1 i xs = xs" by (simp add: splice1_def)
  with assms show ?thesis by simp
next
  case True
  then have "xs = take i xs @ xs ! i # drop (Suc i) xs" by (rule id_take_nth_drop)
  then have "distinct (map f (take i xs @ xs ! i # drop (Suc i) xs))" using assms by simp
  then show ?thesis unfolding splice1_def by auto
qed

subsection \<open>Load balancing\<close>

lemma reduce_least:
  fixes first :: BrowserInstance
  assumes "foldl (\<lambda>best current. if activePages current < activePages best then current else best)
             first rest = m"
  shows "\<exists>before after. first # rest = before @ m # after \<and>
           (\<forall>b\<in>set before. activePages m < activePages b) \<and>
           (\<forall>b\<in>set after. activePages m \<le> activePages b)"
  using assms
proof (induction rest arbitrary: m rule: rev_induct)
  case Nil
  then have "first # [] = [] @ m # []" by simp
  then show ?case by fastforce
next
  case (snoc x xs)
  define m0 where "m0 = foldl (\<lambda>best current. if activePages current < activePages best then current else best) first xs"
  from snoc.IH [OF m0_def [symmetric]] obtain before after where
    dec: "first # xs = before @ m0 # after"
    and lo: "\<forall>b\<in>set before. activePages m0 < activePages b"
    and hi: "\<forall>b\<in>set after. activePages m0 \<le> activePages b"
    by blast
  from snoc.prems have m: "m = (if activePages x < activePages m0 then x else m0)"
    unfolding m0_def by auto
  show ?case
  proof (cases "activePages x < activePages m0")
    case True
    with m have mx: "m = x" by simp
    have "first # (xs @ [x]) = (first # xs) @ m # []" using mx by simp
    moreover have "\<forall>b\<in>set (first # xs). activePages m < activePages b"
      unfolding dec using lo hi True mx by auto
    ultimately show ?thesis by (metis empty_iff empty_set)
  next
    case False
    with m have mm: "m = m0" by simp
    have "first # (xs @ [x]) = before @ m # (after @ [x])" using dec mm by simp
    moreover have "\<forall>b\<in>set (after @ [x]). activePages m \<le> activePages b"
      using hi False mm by auto
    ultimately show ?thesis using lo mm by blast
  qed
qed

lemma filter_append_split:
  "filter P ys = xs @ zs \<Longrightarrow> \<exists>us vs. ys = us @ vs \<and> filter P us = xs \<and> filter P vs = zs"
proof (induction ys arbitrary: xs)
  case Nil
  then show ?case by simp
next
  case (Cons y ys)
  show ?case
  proof (cases "P y")
    case False
    with Cons.prems have "filter P ys = xs @ zs" by simp
    from Cons.IH [OF this] obtain us vs where "ys = us @ vs" "filter P us = xs" "filter P vs = zs"
      by blast
    with False have "y # ys = (y # us) @ vs \<and> filter P (y # us) = xs \<and> filter P vs = zs" by simp
    then show ?thesis by blast
  next
    case True
    show ?thesis
    proof (cases xs)
      case Nil
      with Cons.prems have "y # ys = [] @ (y # ys) \<and> filter P [] = xs \<and> filter P (y # ys) = zs"
        by simp
      then show ?thesis by blast
    next
      case (Cons x xs')
      with True Cons.prems have xy: "x = y" and "filter P ys = xs' @ zs" by simp_all
      from Cons.IH [OF this(2)] obtain us vs where "ys = us @ vs" "filter P us = xs'" "filter P vs = zs"
        by blast
      with True xy Cons have "y # ys = (y # us) @ vs \<and> filter P (y # us) = xs \<and> filter P vs = zs"
        by simp
      then show ?thesis by blast
    qed
  qed
qed

lemma selectBestBrowser_props:
  assumes "selectBestBrowser bs = Some best"
  shows "isHealthy best \<and>
         (\<exists>before after. bs = before @ best # after \<and>
            (\<forall>b\<in>set before. isHealthy b \<longrightarrow> activePages best < activePages b) \<and>
            (\<forall>b\<in>set after. isHealthy b \<longrightarrow> activePages best \<le> activePages b))"
proof -
  from assms obtain first rest where
    fr: "filter isHealthy bs = first # rest"
    and m: "foldl (\<lambda>best current. if activePages current < activePages best then current else best)
             first rest = best"
    by (auto simp: selectBestBrowser_def Let_def split: list.splits)
  from reduce_least [OF m] obtain before after where
    dec: "first # rest = before @ best # after"
    and lo: "\<forall>b\<in>set before. activePages best < activePages b"
    and hi: "\<forall>b\<in>set after. activePages best \<le> activePages b"
    by blast
  from fr dec have "filter isHealthy bs = before @ (best # after)" by simp
  then obtain us vs where uv: "bs = us @ vs" "filter isHealthy us = before"
      "filter isHealthy vs = best # after"
    using filter_append_split by blast
  from uv(3) obtain ws zs where wz: "vs = ws @ best # zs" "\<forall>w\<in>set ws. \<not> isHealthy w"
      "isHealthy best" "after = filter isHealthy zs"
    unfolding filter_eq_Cons_iff by blast
  have "bs = (us @ ws) @ best # zs" using uv(1) wz(1) by simp
  moreover have "\<forall>b\<in>set (us @ ws). isHealthy b \<longrightarrow> activePages best < activePages b"
    using lo uv(2) wz(2) by auto
  moreover have "\<forall>b\<in>set zs. isHealthy b \<longrightarrow> activePages best \<le> activePages b"
    using hi wz(4) by auto
  ultimately show ?thesis using wz(3) by blast
qed

text \<open>
  Claim C7. The browser selected is healthy, no healthy browser has fewer active pages,
  and every healthy browser that comes before it in the array has strictly more: among
  the healthy browsers with the least count, the first in iteration order is chosen. And
  the page that \<open>createNewPage\<close> creates is a page of the browser selected.
\<close>

theorem selectBestBrowser_least_loaded:
  "(selectBestBrowser bs = Some best \<longrightarrow>
      isHealthy best \<and>
      (\<exists>before after. bs = before @ best # after \<and>
         (\<forall>b\<in>set before. isHealthy b \<longrightarrow> activePages best < activePages b) \<and>
         (\<forall>b\<in>set after. isHealthy b \<longrightarrow> activePages best \<le> activePages b))) \<and>
   (createNewPage now [] created s = (Some (Inr p), s') \<longrightarrow>
      (\<exists>chosen. selectBestBrowser (browsers s) = Some chosen \<and> pageBrowser p = browserId chosen))"
proof -
  have 2: "\<exists>chosen. selectBestBrowser (browsers s) = Some chosen \<and> pageBrowser p = browserId chosen"
    if run: "createNewPage now [] created s = (Some (Inr p), s')"
    using run
  proof (cases rule: createNewPage_cases)
    case NoHealthy
    with run show ?thesis by (simp add: createNewPage_none)
  next
    case (Waiting chosen)
    with run show ?thesis by (simp add: createNewPage_full_Nil)
  next
    case (Retry chosen ro ros')
    then show ?thesis by simp
  next
    case (Room chosen)
    with run show ?thesis
      by (auto simp: createNewPage_room Let_def split: if_splits)
  qed
  from 2 selectBestBrowser_props [of bs best] show ?thesis by blast
qed

theorem selectBestBrowser_least_loaded_witness:
  "selectBestBrowser
     [\<lparr> browserId = 0, isConnected = True, activePages = 0, browserCreatedAt = 0,
          browserLastUsed = 0, isHealthy = False \<rparr>,
      \<lparr> browserId = 1, isConnected = True, activePages = 2, browserCreatedAt = 0,
          browserLastUsed = 0, isHealthy = True \<rparr>,
      \<lparr> browserId = 2, isConnected = True, activePages = 1, browserCreatedAt = 0,
          browserLastUsed = 0, isHealthy = True \<rparr>,
      \<lparr> browserId = 3, isConnected = True, activePages = 1, browserCreatedAt = 0,
          browserLastUsed = 0, isHealthy = True \<rparr>]
     = Some \<lparr> browserId = 2, isConnected = True, activePages = 1, browserCreatedAt = 0,
          browserLastUsed = 0, isHealthy = True \<rparr> \<and>
   isHealthy \<lparr> browserId = 2, isConnected = True, activePages = 1, browserCreatedAt = 0,
          browserLastUsed = 0, isHealthy = True \<rparr> \<and>
   fst (createNewPage 2 [] PageConfigured (exec [InitializeBrowsers 0 [], GetPage 1] emptyPool)) = Some (Inr \<lparr> pageId = 0, pageBrowser = 0 \<rparr>) \<and>
   map browserId (browsers (exec [InitializeBrowsers 0 [], GetPage 1] emptyPool)) = [0, 1, 2] \<and>
   map activePages (browsers (exec [InitializeBrowsers 0 [], GetPage 1] emptyPool)) = [0, 0, 0] \<and>
   map isHealthy (browsers (exec [InitializeBrowsers 0 [], GetPage 1] emptyPool)) = [True, True, True]"
proof -
  have sel: "selectBestBrowser
     [\<lparr> browserId = 0, isConnected = True, activePages = 0, browserCreatedAt = 0,
          browserLastUsed = 0, isHealthy = False \<rparr>,
      \<lparr> browserId = 1, isConnected = True, activePages = 2, browserCreatedAt = 0,
          browserLastUsed = 0, isHealthy = True \<rparr>,
      \<lparr> browserId = 2, isConnected = True, activePages = 1, browserCreatedAt = 0,
          browserLastUsed = 0, isHealthy = True \<rparr>,
      \<lparr> browserId = 3, isConnected = True, activePages = 1, browserCreatedAt = 0,
          browserLastUsed = 0, isHealthy = True \<rparr>]
     = Some \<lparr> browserId = 2, isConnected = True, activePages = 1, browserCreatedAt = 0,
          browserLastUsed = 0, isHealthy = True \<rparr>"
    by (simp add: selectBestBrowser_def)
  have c1: "fst (createNewPage 2 [] PageConfigured (exec [InitializeBrowsers 0 [], GetPage 1] emptyPool)) = Some (Inr \<lparr> pageId = 0, pageBrowser = 0 \<rparr>)" by code_simp
  then have c: "createNewPage 2 [] PageConfigured (exec [InitializeBrowsers 0 [], GetPage 1] emptyPool) =
      (Some (Inr \<lparr> pageId = 0, pageBrowser = 0 \<rparr>), snd (createNewPage 2 [] PageConfigured (exec [InitializeBrowsers 0 [], GetPage 1] emptyPool)))"
    by (metis prod.collapse)
  have b: "map browserId (browsers (exec [InitializeBrowsers 0 [], GetPage 1] emptyPool)) = [0, 1, 2]" "map activePages (browsers (exec [InitializeBrowsers 0 [], GetPage 1] emptyPool)) = [0, 0, 0]"
    "map isHealthy (browsers (exec [InitializeBrowsers 0 [], GetPage 1] emptyPool)) = [True, True, True]"
    by code_simp+
  from selectBestBrowser_least_loaded
         [of "[\<lparr> browserId = 0, isConnected = True, activePages = 0, browserCreatedAt = 0,
          browserLastUsed = 0, isHealthy = False \<rparr>,
      \<lparr> browserId = 1, isConnected = True, activePages = 2, browserCreatedAt = 0,
          browserLastUsed = 0, isHealthy = True \<rparr>,
      \<lparr> browserId = 2, isConnected = True, activePages = 1, browserCreatedAt = 0,
          browserLastUsed = 0, isHealthy = True \<rparr>,
      \<lparr> browserId = 3, isConnected = True, activePages = 1, browserCreatedAt = 0,
          browserLastUsed = 0, isHealthy = True \<rparr>]"
             "\<lparr> browserId = 2, isConnected = True, activePages = 1, browserCreatedAt = 0,
          browserLastUsed = 0, isHealthy = True \<rparr>" 2 PageConfigured "exec [InitializeBrowsers 0 [], GetPage 1] emptyPool" "\<lparr> pageId = 0, pageBrowser = 0 \<rparr>"
             "snd (createNewPage 2 [] PageConfigured (exec [InitializeBrowsers 0 [], GetPage 1] emptyPool))"] sel c
  have "isHealthy \<lparr> browserId = 2, isConnected = True, activePages = 1, browserCreatedAt = 0,
          browserLastUsed = 0, isHealthy = True \<rparr>" by blast
  with sel c1 b show ?thesis by blast
qed

subsection \<open>Admission\<close>

lemma sameAdmission_refl: "sameAdmission s s" by (simp add: sameAdmission_def)

lemma sameAdmission_trans: "sameAdmission s s1 \<Longrightarrow> sameAdmission s1 s2 \<Longrightarrow> sameAdmission s s2"
  by (simp add: sameAdmission_def)

lemma getPooledPage_sameAdmission: "getPooledPage now s = (x, s') \<Longrightarrow> sameAdmission s s'"
  by (auto simp: getPooledPage_def sameAdmission_def Let_def split: option.splits)

lemma createBrowserInstance_sameAdmission: "createBrowserInstance now ok s = Inr s' \<Longrightarrow> sameAdmission s s'"
  by (auto simp: createBrowserInstance_def sameAdmission_def split: if_splits)

lemma replaceUnhealthyBrowser_sameAdmission: "sameAdmission s (replaceUnhealthyBrowser now ro b s)"
  by (auto simp: replaceUnhealthyBrowser_def sameAdmission_def createBrowserInstance_def Let_def split: option.splits sum.splits if_splits)

lemma createNewPage_sameAdmission: "createNewPage now ros co s = (x, s') \<Longrightarrow> sameAdmission s s'"
proof (induction ros arbitrary: s)
  case Nil
  from Nil show ?case
  proof (cases rule: createNewPage_cases)
    case NoHealthy
    with Nil show ?thesis by (auto simp: createNewPage_none sameAdmission_def)
  next
    case (Waiting best)
    with Nil show ?thesis by (auto simp: createNewPage_full_Nil sameAdmission_def)
  next
    case (Retry best ro ros')
    then show ?thesis by simp
  next
    case (Room best)
    with Nil show ?thesis
      by (auto simp: createNewPage_room sameAdmission_def Let_def split: if_splits)
  qed
next
  case (Cons ro ros)
  from Cons.prems show ?case
  proof (cases rule: createNewPage_cases)
    case NoHealthy
    with Cons.prems show ?thesis by (auto simp: createNewPage_none sameAdmission_def)
  next
    case (Waiting best)
    then show ?thesis by simp
  next
    case (Retry best ro' ros')
    let ?s = "s\<lparr>selections := Suc (selections s)\<rparr>"
    from Retry Cons.prems have
      "createNewPage now ros co (replaceUnhealthyBrowser now ro best ?s) = (x, s')"
      by (simp add: createNewPage_full_Cons)
    from Cons.IH [OF this]
    have "sameAdmission (replaceUnhealthyBrowser now ro best ?s) s'" .
    moreover have "sameAdmission s ?s" by (simp add: sameAdmission_def)
    ultimately show ?thesis
      using replaceUnhealthyBrowser_sameAdmission sameAdmission_trans by blast
  next
    case (Room best)
    with Cons.prems show ?thesis
      by (auto simp: createNewPage_room sameAdmission_def Let_def split: if_splits)
  qed
qed

lemma fifoV_enqueue:
  assumes "fifoV [] E G Q n" "\<forall>x\<in>set E. x < r" "\<forall>x\<in>set (map fst G). x < r" "r < n"
  shows "fifoV [] (E @ [r]) G (Q @ [r]) n"
proof -
  have "r \<notin> set (map fst G)" using assms(3) by auto
  then have "filter (\<lambda>x. x \<in> set (E @ [r])) (map fst G) = filter (\<lambda>x. x \<in> set E) (map fst G)"
    by (intro filter_cong) auto
  moreover have "sorted_wrt (<) (E @ [r])"
    using assms(1,2) by (simp add: fifoV_def sorted_wrt_append)
  ultimately show ?thesis using assms(1,4) unfolding fifoV_def by auto
qed

lemma fifoV_grant_fresh:
  assumes "fifoV [] E G [] n" "r \<notin> set E" "r < n"
  shows "fifoV [] E (G @ [(r, [])]) [] n"
  using assms unfolding fifoV_def by auto

lemma fifoV_grant_woken:
  assumes "fifoV [r] E G Q n"
  shows "fifoV [] E (G @ [(r, Q)]) Q n"
proof -
  from assms have E: "E = filter (\<lambda>x. x \<in> set E) (map fst G) @ [r] @ Q"
    and srt: "sorted_wrt (<) E" by (simp_all add: fifoV_def)
  have rE: "r \<in> set E" by (subst E) simp
  have "sorted_wrt (<) (filter (\<lambda>x. x \<in> set E) (map fst G) @ [r] @ Q)"
    using srt E by simp
  then have "\<forall>r'\<in>set Q. r < r'" by (simp add: sorted_wrt_append)
  moreover have "r < n" using assms rE by (simp add: fifoV_def)
  ultimately show ?thesis using assms rE unfolding fifoV_def by auto
qed

lemma fifoV_shift: "fifoV [] E G (r # Q) n \<Longrightarrow> fifoV [r] E G Q n"
  by (simp add: fifoV_def)

lemma admission_getPage_processNext:
  "((freshCall r s \<or> wokenCall r s) \<longrightarrow> fifo [] (getPage now r s) \<and> adm (getPage now r s))"
  "(slotFreed s' \<longrightarrow> fifo [] (processNextQueuedRequest now' s') \<and> adm (processNextQueuedRequest now' s'))"
proof (induction now r s and now' s' rule: getPage_processNextQueuedRequest.induct)
  case (1 now r s)
  show ?case
  proof
    assume pre: "freshCall r s \<or> wokenCall r s"
    show "fifo [] (getPage now r s) \<and> adm (getPage now r s)"
    proof (cases "activeRequests s \<ge> maxConcurrentRequests")
      case True
      with pre have f: "freshCall r s" by (auto simp: wokenCall_def)
      then have "fifoV [] (enqueued s @ [r]) (granted s) (map request (requestQueue s) @ [r]) (requestCount s)"
        by (intro fifoV_enqueue) (auto simp: freshCall_def fifo_def)
      moreover from f True have "activeRequests s = maxConcurrentRequests"
        by (auto simp: freshCall_def adm_def)
      ultimately show ?thesis using True
        by (simp add: getPage_full fifo_def adm_def)
    next
      case False
      obtain x s2 where g: "getPooledPage now (takeSlot r s) = (x, s2)" by fastforce
      from getPooledPage_sameAdmission [OF g]
      have same: "activeRequests s2 = activeRequests s + 1" "requestQueue s2 = requestQueue s"
        "enqueued s2 = enqueued s" "granted s2 = granted s @ [(r, map request (requestQueue s))]"
        "requestCount s2 = requestCount s"
        by (simp_all add: sameAdmission_def takeSlot_def)
      have fv: "fifoV [] (enqueued s) (granted s @ [(r, map request (requestQueue s))])
                  (map request (requestQueue s)) (requestCount s)"
        using pre
      proof
        assume f: "freshCall r s"
        with False have q: "requestQueue s = []" by (auto simp: freshCall_def adm_def)
        from f have "r \<notin> set (enqueued s)" by (auto simp: freshCall_def)
        with f q show ?thesis
          using fifoV_grant_fresh [of "enqueued s" "granted s" "requestCount s" r]
          by (simp add: freshCall_def fifo_def)
      next
        assume "wokenCall r s"
        then show ?thesis by (intro fifoV_grant_woken) (simp add: wokenCall_def fifo_def)
      qed
      have cnt: "activeRequests s < maxConcurrentRequests"
        "requestQueue s \<noteq> [] \<longrightarrow> activeRequests s = maxConcurrentRequests - 1"
        using pre False by (auto simp: freshCall_def wokenCall_def adm_def)
      show ?thesis
      proof (cases x)
        case None
        with g False have "getPage now r s = s2\<lparr> creating := creating s2 @ [r] \<rparr>"
          by (simp add: getPage_miss)
        then show ?thesis using fv cnt same by (simp add: fifo_def adm_def)
      next
        case (Some pooledPage)
        let ?s3 = "s2\<lparr> settled := settled s2 @ [(r, Inr pooledPage)], onLoan := onLoan s2 @ [pooledPage],
            activeRequests := activeRequests s2 - 1 \<rparr>"
        from Some g False have eq: "getPage now r s = processNextQueuedRequest now ?s3"
          by (simp add: getPage_pooled)
        have "slotFreed ?s3" using fv cnt same by (simp add: slotFreed_def fifo_def)
        moreover have "slotFreed ?s3 \<longrightarrow> fifo [] (processNextQueuedRequest now ?s3) \<and> adm (processNextQueuedRequest now ?s3)"
          using "1.IH" [OF False refl g [unfolded takeSlot_def, symmetric] _ refl] Some
          by simp
        ultimately show ?thesis using eq by simp
      qed
    qed
  qed
next
  case (2 now s)
  show ?case
  proof
    assume pre: "slotFreed s"
    show "fifo [] (processNextQueuedRequest now s) \<and> adm (processNextQueuedRequest now s)"
    proof (cases "requestQueue s")
      case Nil
      with pre show ?thesis by (simp add: processNext_idle slotFreed_def adm_def)
    next
      case (Cons nextRequest rest)
      from pre have lt: "activeRequests s < maxConcurrentRequests" by (simp add: slotFreed_def)
      let ?s = "s\<lparr> requestQueue := rest \<rparr>"
      have eq: "processNextQueuedRequest now s = getPage now (request nextRequest) ?s"
        using Cons lt by (simp add: processNext_wake)
      from pre Cons have "fifoV [request nextRequest] (enqueued s) (granted s) (map request rest) (requestCount s)"
        by (intro fifoV_shift) (simp add: slotFreed_def fifo_def)
      with pre Cons have "wokenCall (request nextRequest) ?s"
        by (simp add: wokenCall_def slotFreed_def fifo_def)
      moreover have "(freshCall (request nextRequest) ?s \<or> wokenCall (request nextRequest) ?s) \<longrightarrow>
          fifo [] (getPage now (request nextRequest) ?s) \<and> adm (getPage now (request nextRequest) ?s)"
        using "2.IH" [of nextRequest rest] Cons lt by simp
      ultimately show ?thesis using eq by simp
    qed
  qed
qed

lemma foldl_sameAdmission:
  assumes "\<And>t x. sameAdmission t (f t x)"
  shows "sameAdmission s (foldl f s xs)"
proof (induction xs arbitrary: s)
  case Nil
  show ?case by (simp add: sameAdmission_refl)
next
  case (Cons x xs)
  have "sameAdmission s (f s x)" by (rule assms)
  moreover have "sameAdmission (f s x) (foldl f (f s x) xs)" by (rule Cons.IH)
  ultimately show ?case using sameAdmission_trans by auto
qed

lemma updatePageCount_sameAdmission: "sameAdmission s (updatePageCount s)"
  by (simp add: updatePageCount_def sameAdmission_def)

lemma pageClose_sameAdmission: "sameAdmission s (pageClose p s)"
  by (simp add: pageClose_def updatePageCount_def sameAdmission_def Let_def)

lemma removePageFromPool_sameAdmission: "sameAdmission s (removePageFromPool closeOk pageItem s)"
  by (auto simp: removePageFromPool_def pageClose_def updatePageCount_def sameAdmission_def Let_def
           split: option.splits)

lemma returnPageToPool_sameAdmission: "sameAdmission s (returnPageToPool now resetOk closeOk pageItem s)"
  using removePageFromPool_sameAdmission [of s closeOk pageItem]
  by (auto simp: returnPageToPool_def sameAdmission_def)

lemma closePage_sameAdmission: "sameAdmission s (closePage now resetOk closeOk p s)"
proof -
  let ?s = "s\<lparr> onLoan := remove1 p (onLoan s) \<rparr>"
  have 0: "sameAdmission s ?s" by (simp add: sameAdmission_def)
  have "sameAdmission ?s (closePage now resetOk closeOk p s)"
    using returnPageToPool_sameAdmission [of ?s] pageClose_sameAdmission [of ?s p]
      updatePageCount_sameAdmission [of "pageClose p ?s"] sameAdmission_trans
    by (auto simp: closePage_def Let_def sameAdmission_refl split: option.splits)
  with 0 show ?thesis using sameAdmission_trans by blast
qed

lemma cleanupPagePool_sameAdmission: "sameAdmission s (cleanupPagePool now closeFails s)"
  unfolding cleanupPagePool_def Let_def
  by (rule foldl_sameAdmission) (rule removePageFromPool_sameAdmission)

lemma performBrowserHealthCheck_sameAdmission: "sameAdmission s (performBrowserHealthCheck now outcomes s)"
  unfolding performBrowserHealthCheck_def Let_def
  by (rule foldl_sameAdmission) (auto simp: replaceUnhealthyBrowser_sameAdmission)

lemma initializeBrowsers_sameAdmission: "sameAdmission s (initializeBrowsers now failing s)"
proof -
  have "sameAdmission s (foldl (\<lambda>s' index. case createBrowserInstance now (index \<notin> set failing) s' of
                                 Inl e \<Rightarrow> s' | Inr s'' \<Rightarrow> s'') s [0 ..< maxBrowsers])"
    by (rule foldl_sameAdmission)
       (auto simp: sameAdmission_refl createBrowserInstance_sameAdmission split: sum.splits)
  then show ?thesis by (simp add: initializeBrowsers_def sameAdmission_refl)
qed

lemma closeAllBrowsers_sameAdmission: "sameAdmission s (closeAllBrowsers closeFails s)"
proof -
  have "sameAdmission s (foldl (\<lambda>s' pageItem.
                   if page pageItem \<notin> closedPages s' \<and> page pageItem \<notin> set closeFails
                   then pageClose (page pageItem) s' else s') s (pagePool s))"
    by (rule foldl_sameAdmission) (auto simp: sameAdmission_refl pageClose_sameAdmission)
  then show ?thesis by (simp add: closeAllBrowsers_def sameAdmission_def Let_def)
qed

lemma restartBrowsers_sameAdmission: "sameAdmission s (restartBrowsers now closeFails failing s)"
  unfolding restartBrowsers_def
  using closeAllBrowsers_sameAdmission initializeBrowsers_sameAdmission sameAdmission_trans by blast

lemma sameAdmission_fifo: "sameAdmission s s' \<Longrightarrow> fifo h s' = fifo h s"
  by (simp add: sameAdmission_def fifo_def)

lemma sameAdmission_adm: "sameAdmission s s' \<Longrightarrow> adm s' = adm s"
  by (simp add: sameAdmission_def adm_def)

lemma sameAdmission_inv: "sameAdmission s s' \<Longrightarrow> admissionInv s \<Longrightarrow> admissionInv s'"
  by (simp add: admissionInv_def sameAdmission_fifo sameAdmission_adm)

lemma resumeGetPage_admissionInv:
  assumes "admissionInv s"
  shows "admissionInv (resumeGetPage now r outcomes created s)"
proof -
  obtain x s1 where c: "createNewPage now outcomes created s = (x, s1)" by fastforce
  from createNewPage_sameAdmission [OF c] have same: "sameAdmission s s1" .
  show ?thesis
  proof (cases x)
    case None
    with c have "resumeGetPage now r outcomes created s = s1" by (simp add: resumeGetPage_def)
    with same assms show ?thesis using sameAdmission_inv by simp
  next
    case (Some result)
    let ?s2 = "s1\<lparr> creating := remove1 r (creating s1), settled := settled s1 @ [(r, result)],
                   onLoan := (case result of Inl e \<Rightarrow> onLoan s1 | Inr p \<Rightarrow> onLoan s1 @ [p]),
                   activeRequests := activeRequests s1 - 1 \<rparr>"
    from Some c have eq: "resumeGetPage now r outcomes created s = processNextQueuedRequest now ?s2"
      by (simp add: resumeGetPage_def Let_def)
    from same assms have "admissionInv s1" using sameAdmission_inv by simp
    then have "slotFreed ?s2" by (auto simp: admissionInv_def slotFreed_def fifo_def adm_def)
    with admission_getPage_processNext(2) [of ?s2 now] eq show ?thesis
      by (simp add: admissionInv_def)
  qed
qed

lemma step_admissionInv:
  assumes "admissionInv s"
  shows "admissionInv (step e s)"
proof (cases e)
  case (GetPage now)
  let ?s = "s\<lparr> requestCount := Suc (requestCount s) \<rparr>"
  from assms have "freshCall (requestCount s) ?s"
    by (auto simp: admissionInv_def freshCall_def fifo_def fifoV_def adm_def less_Suc_eq)
  with admission_getPage_processNext(1) [of "requestCount s" ?s now] GetPage show ?thesis
    by (simp add: admissionInv_def)
next
  case (ResumeGetPage now r outcomes created)
  with assms resumeGetPage_admissionInv show ?thesis by simp
qed (use assms in \<open>auto intro: sameAdmission_inv [rotated]
       simp: initializeBrowsers_sameAdmission closePage_sameAdmission cleanupPagePool_sameAdmission
         performBrowserHealthCheck_sameAdmission restartBrowsers_sameAdmission pageClose_sameAdmission\<close>,
     auto simp: admissionInv_def fifo_def adm_def onDisconnected_def onTargetDestroyed_def)

lemma emptyPool_admissionInv: "admissionInv emptyPool"
  by (simp add: admissionInv_def fifo_def fifoV_def adm_def emptyPool_def maxConcurrentRequests_def)

lemma exec_admissionInv: "admissionInv (exec evs emptyPool)"
  by (rule exec_induct) (simp_all add: emptyPool_admissionInv step_admissionInv)

text \<open>
  Claim C3. In every state that a run of the service reaches from the initial pool, whatever
  the events, \<open>activeRequests\<close> is at most \<open>maxConcurrentRequests\<close>; and a \<open>getPage\<close>
  call that arrives while the counter is at the limit leaves the counter as it is, takes no
  slot, and is appended to the queue.
\<close>

theorem activeRequests_never_exceeds_limit:
  "activeRequests (exec evs emptyPool) \<le> maxConcurrentRequests \<and>
   (activeRequests (exec evs emptyPool) = maxConcurrentRequests \<longrightarrow>
      activeRequests (step (GetPage now) (exec evs emptyPool)) = maxConcurrentRequests \<and>
      map request (requestQueue (step (GetPage now) (exec evs emptyPool))) =
        map request (requestQueue (exec evs emptyPool)) @ [requestCount (exec evs emptyPool)] \<and>
      granted (step (GetPage now) (exec evs emptyPool)) = granted (exec evs emptyPool))"
proof -
  have "admissionInv (exec evs emptyPool)" by (rule exec_admissionInv)
  then have "activeRequests (exec evs emptyPool) \<le> maxConcurrentRequests"
    by (simp add: admissionInv_def adm_def)
  then show ?thesis by (simp add: getPage_full)
qed

theorem activeRequests_never_exceeds_limit_witness:
  "activeRequests (exec (replicate 10 (GetPage 0)) emptyPool) = maxConcurrentRequests \<and>
   activeRequests (step (GetPage 1) (exec (replicate 10 (GetPage 0)) emptyPool)) = maxConcurrentRequests \<and>
   map request (requestQueue (step (GetPage 1) (exec (replicate 10 (GetPage 0)) emptyPool))) = [10]"
proof -
  have a: "activeRequests (exec (replicate 10 (GetPage 0)) emptyPool) = maxConcurrentRequests"
    by code_simp
  have q: "map request (requestQueue (exec (replicate 10 (GetPage 0)) emptyPool)) = []"
    by code_simp
  have c: "requestCount (exec (replicate 10 (GetPage 0)) emptyPool) = 10"
    by code_simp
  from activeRequests_never_exceeds_limit [of "replicate 10 (GetPage 0)" 1] a q c
  show ?thesis by simp
qed

lemma filter_nth_positions:
  "i < j \<Longrightarrow> j < length (filter P xs) \<Longrightarrow>
   \<exists>m n. m < n \<and> n < length xs \<and> xs ! m = filter P xs ! i \<and> xs ! n = filter P xs ! j"
proof (induction xs arbitrary: i j)
  case Nil
  then show ?case by simp
next
  case (Cons x xs)
  show ?case
  proof (cases "P x")
    case False
    with Cons.prems have "j < length (filter P xs)" by simp
    from Cons.IH [OF Cons.prems(1) this] obtain m n where
      "m < n" "n < length xs" "xs ! m = filter P xs ! i" "xs ! n = filter P xs ! j" by blast
    with False have "Suc m < Suc n \<and> Suc n < length (x # xs) \<and>
        (x # xs) ! Suc m = filter P (x # xs) ! i \<and> (x # xs) ! Suc n = filter P (x # xs) ! j"
      by simp
    then show ?thesis by blast
  next
    case True
    from Cons.prems obtain j' where j: "j = Suc j'" by (cases j) auto
    with True Cons.prems have j': "j' < length (filter P xs)" by simp
    show ?thesis
    proof (cases i)
      case 0
      from j' have "filter P xs ! j' \<in> set xs"
        using nth_mem [OF j'] by auto
      then obtain n where "n < length xs" "xs ! n = filter P xs ! j'"
        by (auto simp: in_set_conv_nth)
      with True 0 j have "0 < Suc n \<and> Suc n < length (x # xs) \<and>
        (x # xs) ! 0 = filter P (x # xs) ! i \<and> (x # xs) ! Suc n = filter P (x # xs) ! j"
        by simp
      then show ?thesis by blast
    next
      case (Suc i')
      with j Cons.prems have "i' < j'" by simp
      from Cons.IH [OF this j'] obtain m n where
        "m < n" "n < length xs" "xs ! m = filter P xs ! i'" "xs ! n = filter P xs ! j'" by blast
      with True Suc j have "Suc m < Suc n \<and> Suc n < length (x # xs) \<and>
        (x # xs) ! Suc m = filter P (x # xs) ! i \<and> (x # xs) ! Suc n = filter P (x # xs) ! j"
        by simp
      then show ?thesis by blast
    qed
  qed
qed

lemma fifo_pairs:
  fixes E :: "nat list" and G :: "nat list"
  assumes E: "filter (\<lambda>r. r \<in> set E) G @ Q = E" and d: "distinct E"
    and ij: "i < j" "j < length E" and g: "E ! j \<in> set G"
  shows "\<exists>m n. m < n \<and> n < length G \<and> G ! m = E ! i \<and> G ! n = E ! j"
proof -
  let ?F = "filter (\<lambda>r. r \<in> set E) G"
  have Ej: "E ! j \<in> set ?F" using g ij by simp
  have jF: "j < length ?F"
  proof (rule ccontr)
    assume "\<not> j < length ?F"
    then have "E ! j = Q ! (j - length ?F)" "j - length ?F < length Q"
      using ij(2) by (subst E [symmetric], simp add: nth_append, subst (asm) E [symmetric], simp)
    then have "E ! j \<in> set Q" by (metis nth_mem)
    moreover from d have "set ?F \<inter> set Q = {}" by (subst (asm) E [symmetric]) simp
    ultimately show False using Ej by blast
  qed
  from filter_nth_positions [OF ij(1) jF] obtain m n where
    mn: "m < n" "n < length G" "G ! m = ?F ! i" "G ! n = ?F ! j" by blast
  have "E ! i = ?F ! i" "E ! j = ?F ! j"
    using jF ij(1) by (subst E [symmetric], simp add: nth_append)+
  with mn show ?thesis by metis
qed

text \<open>
  Claim C2. Request numbers are given out in the order of the \<open>getPage\<close> calls, so a
  smaller number is an earlier arrival. In every state that a run reaches:
  the requests that went through the queue have taken their slots in exactly the order in
  which they were enqueued, and those still waiting come after them; requests were enqueued
  in order of arrival; whenever a request took a slot, every request pending at that moment
  had arrived after it; and of two enqueued requests, when the later one has a slot the
  earlier one got its slot before. A request woken from the queue takes its slot in the same
  uninterrupted run, so it never goes back to the end of the queue.
\<close>

theorem admission_is_fifo:
  "let s = exec evs emptyPool; E = enqueued s; G = map fst (granted s) in
     filter (\<lambda>r. r \<in> set E) G @ map request (requestQueue s) = E \<and>
     sorted_wrt (<) E \<and>
     (\<forall>(r, pending) \<in> set (granted s). \<forall>r' \<in> set pending. r < r') \<and>
     (\<forall>i j. i < j \<and> j < length E \<and> E ! j \<in> set G \<longrightarrow>
        (\<exists>m n. m < n \<and> n < length G \<and> G ! m = E ! i \<and> G ! n = E ! j))"
proof -
  define s where "s = exec evs emptyPool"
  have "admissionInv s" unfolding s_def by (rule exec_admissionInv)
  then have f: "fifoV [] (enqueued s) (granted s) (map request (requestQueue s)) (requestCount s)"
    by (simp add: admissionInv_def fifo_def)
  then have 1: "filter (\<lambda>r. r \<in> set (enqueued s)) (map fst (granted s)) @ map request (requestQueue s)
                 = enqueued s"
    and 2: "sorted_wrt (<) (enqueued s)"
    and 3: "\<forall>(r, pending) \<in> set (granted s). \<forall>r' \<in> set pending. r < r'"
    by (simp_all add: fifoV_def)
  from 2 have d: "distinct (enqueued s)" by (simp add: strict_sorted_iff)
  have 4: "\<forall>i j. i < j \<and> j < length (enqueued s) \<and> enqueued s ! j \<in> set (map fst (granted s)) \<longrightarrow>
        (\<exists>m n. m < n \<and> n < length (map fst (granted s)) \<and> map fst (granted s) ! m = enqueued s ! i \<and>
               map fst (granted s) ! n = enqueued s ! j)"
    using fifo_pairs [OF 1 d] by blast
  from 1 2 3 4 show ?thesis unfolding s_def [symmetric] Let_def by blast
qed

theorem admission_is_fifo_witness:
  "enqueued (exec (replicate 12 (GetPage 0) @ [ResumeGetPage 1 0 [] PageConfigured]) emptyPool) = [10, 11] \<and>
   map request (requestQueue (exec (replicate 12 (GetPage 0) @ [ResumeGetPage 1 0 [] PageConfigured]) emptyPool)) = [11] \<and>
   granted (exec (replicate 12 (GetPage 0) @ [ResumeGetPage 1 0 [] PageConfigured]) emptyPool) =
     [(0, []), (1, []), (2, []), (3, []), (4, []), (5, []), (6, []), (7, []), (8, []), (9, []), (10, [11])] \<and>
   (10::nat) < 11"
proof -
  have e: "enqueued (exec (replicate 12 (GetPage 0) @ [ResumeGetPage 1 0 [] PageConfigured]) emptyPool) = [10, 11]"
    by code_simp
  have q: "map request (requestQueue (exec (replicate 12 (GetPage 0) @ [ResumeGetPage 1 0 [] PageConfigured]) emptyPool)) = [11]"
    by code_simp
  have g: "granted (exec (replicate 12 (GetPage 0) @ [ResumeGetPage 1 0 [] PageConfigured]) emptyPool) =
     [(0, []), (1, []), (2, []), (3, []), (4, []), (5, []), (6, []), (7, []), (8, []), (9, []), (10, [11])]"
    by code_simp
  from admission_is_fifo [of "replicate 12 (GetPage 0) @ [ResumeGetPage 1 0 [] PageConfigured]"]
  have "\<forall>(r, pending) \<in> set (granted (exec (replicate 12 (GetPage 0) @ [ResumeGetPage 1 0 [] PageConfigured]) emptyPool)).
          \<forall>r' \<in> set pending. r < r'"
    unfolding Let_def by blast
  then have "(10::nat) < 11" unfolding g by simp
  with e q g show ?thesis by blast
qed

lemma resumeGetPage_result:
  assumes c: "createNewPage now outcomes created s = (Some result, s1)"
  shows "resumeGetPage now r outcomes created s =
           processNextQueuedRequest now
             (s1\<lparr> creating := remove1 r (creating s1), settled := settled s1 @ [(r, result)],
                  onLoan := (case result of Inl e \<Rightarrow> onLoan s1 | Inr p \<Rightarrow> onLoan s1 @ [p]),
                  activeRequests := activeRequests s1 - 1 \<rparr>)"
  using c by (simp add: resumeGetPage_def Let_def)

lemma createNewPage_settled: "createNewPage now ros co s = (x, s') \<Longrightarrow> settled s' = settled s"
proof (induction ros arbitrary: s)
  case Nil
  from Nil show ?case
  proof (cases rule: createNewPage_cases)
    case NoHealthy
    with Nil show ?thesis by (auto simp: createNewPage_none)
  next
    case (Waiting best)
    with Nil show ?thesis by (auto simp: createNewPage_full_Nil)
  next
    case (Retry best ro ros')
    then show ?thesis by simp
  next
    case (Room best)
    with Nil show ?thesis
      by (auto simp: createNewPage_room Let_def split: if_splits)
  qed
next
  case (Cons ro ros)
  from Cons.prems show ?case
  proof (cases rule: createNewPage_cases)
    case NoHealthy
    with Cons.prems show ?thesis by (auto simp: createNewPage_none)
  next
    case (Waiting best)
    then show ?thesis by simp
  next
    case (Retry best ro' ros')
    let ?s = "s\<lparr>selections := Suc (selections s)\<rparr>"
    from Retry Cons.prems have
      "createNewPage now ros co (replaceUnhealthyBrowser now ro best ?s) = (x, s')"
      by (simp add: createNewPage_full_Cons)
    from Cons.IH [OF this]
    have "settled s' = settled (replaceUnhealthyBrowser now ro best ?s)" .
    also have "\<dots> = settled s"
      by (auto simp: replaceUnhealthyBrowser_def createBrowserInstance_def Let_def
               split: option.splits sum.splits if_splits)
    finally show ?thesis .
  next
    case (Room best)
    with Cons.prems show ?thesis
      by (auto simp: createNewPage_room Let_def split: if_splits)
  qed
qed

lemma resumeGetPage_error_idle:
  assumes c: "fst (createNewPage now outcomes created s) = Some (Inl e)"
    and q: "requestQueue s = []"
  shows "settled (resumeGetPage now r outcomes created s) = settled s @ [(r, Inl e)] \<and>
         activeRequests (resumeGetPage now r outcomes created s) = activeRequests s - 1"
proof -
  obtain s1 where c1: "createNewPage now outcomes created s = (Some (Inl e), s1)"
    using c by (cases "createNewPage now outcomes created s") auto
  from createNewPage_sameAdmission [OF c1] q have same: "activeRequests s1 = activeRequests s"
    "requestQueue s1 = []"
    by (simp_all add: sameAdmission_def)
  from createNewPage_settled [OF c1] have st: "settled s1 = settled s" .
  show ?thesis
    unfolding resumeGetPage_result [OF c1] using same st by (simp add: processNext_idle)
qed

text \<open>
  Claim C8. When no browser is healthy, \<open>createNewPage\<close> throws "No healthy browser
  instances available". A \<open>getPage\<close> call that takes a slot, finds no pooled page and gets
  that error from \<open>createNewPage\<close> (at once, or after a replacement that left no healthy
  browser) ends with the error, and when it has ended \<open>activeRequests\<close> is back at the value
  it had before the call. The last part says the same of any request suspended in
  \<open>createNewPage\<close> (one woken from the queue too) when nobody is waiting for the freed slot.
\<close>

theorem no_healthy_browser_releases_slot:
  "let s = exec evs emptyPool; r = requestCount s;
       s1 = step (GetPage now) s;
       s2 = step (ResumeGetPage now' r outcomes created) s1 in
   (selectBestBrowser (browsers s1) = None \<longrightarrow>
      fst (createNewPage now' outcomes created s1) = Some (Inl NoHealthyBrowser)) \<and>
   (activeRequests s < maxConcurrentRequests \<and> fst (getPooledPage now s) = None \<and>
    fst (createNewPage now' outcomes created s1) = Some (Inl NoHealthyBrowser) \<longrightarrow>
      activeRequests s1 = activeRequests s + 1 \<and> r \<in> set (creating s1) \<and>
      settled s2 = settled s @ [(r, Inl NoHealthyBrowser)] \<and>
      activeRequests s2 = activeRequests s) \<and>
   (\<forall>r' \<in> set (creating s).
      fst (createNewPage now' outcomes created s) = Some (Inl NoHealthyBrowser) \<and>
      requestQueue s = [] \<longrightarrow>
        settled (step (ResumeGetPage now' r' outcomes created) s)
          = settled s @ [(r', Inl NoHealthyBrowser)] \<and>
        activeRequests (step (ResumeGetPage now' r' outcomes created) s) = activeRequests s - 1)"
proof -
  define s where "s = exec evs emptyPool"
  define r where "r = requestCount s"
  define s1 where "s1 = step (GetPage now) s"
  define s2 where "s2 = step (ResumeGetPage now' r outcomes created) s1"
  have inv: "admissionInv s" unfolding s_def by (rule exec_admissionInv)
  have N: "fst (createNewPage now' outcomes created s1) = Some (Inl NoHealthyBrowser)"
    if "selectBestBrowser (browsers s1) = None"
    using that by (simp add: createNewPage_none)
  have A: "activeRequests s1 = activeRequests s + 1 \<and> r \<in> set (creating s1) \<and>
      settled s2 = settled s @ [(r, Inl NoHealthyBrowser)] \<and> activeRequests s2 = activeRequests s"
    if lt: "activeRequests s < maxConcurrentRequests" and miss: "fst (getPooledPage now s) = None"
      and none: "fst (createNewPage now' outcomes created s1) = Some (Inl NoHealthyBrowser)"
  proof -
    let ?s' = "s\<lparr> requestCount := Suc (requestCount s) \<rparr>"
    from inv lt have q: "requestQueue s = []" by (auto simp: admissionInv_def adm_def)
    have "getPooledPage now (takeSlot r ?s') = (None, takeSlot r ?s')"
      using miss by (intro getPooledPage_miss [of now s]) (simp_all add: takeSlot_def)
    with lt have s1: "s1 = (takeSlot r ?s')\<lparr> creating := creating s @ [r] \<rparr>"
      unfolding s1_def r_def
      by (simp add: getPage_miss [where ?s2.0 = "takeSlot (requestCount s) ?s'"] takeSlot_def)
    have q1: "requestQueue s1 = []" "settled s1 = settled s" "activeRequests s1 = activeRequests s + 1"
      "r \<in> set (creating s1)"
      unfolding s1 using q by (simp_all add: takeSlot_def)
    have "s2 = resumeGetPage now' r outcomes created s1" unfolding s2_def using q1(4) by simp
    with resumeGetPage_error_idle [OF none q1(1), of r] q1 show ?thesis by simp
  qed
  have B: "settled (step (ResumeGetPage now' r' outcomes created) s)
             = settled s @ [(r', Inl NoHealthyBrowser)] \<and>
      activeRequests (step (ResumeGetPage now' r' outcomes created) s) = activeRequests s - 1"
    if "r' \<in> set (creating s)"
      "fst (createNewPage now' outcomes created s) = Some (Inl NoHealthyBrowser)"
      "requestQueue s = []" for r'
    using that resumeGetPage_error_idle [OF that(2,3), of r'] by simp
  from N A B show ?thesis
    unfolding s_def [symmetric] r_def [symmetric] s1_def [symmetric] s2_def [symmetric] Let_def
    unfolding s_def [symmetric] r_def [symmetric] s1_def [symmetric] s2_def [symmetric]
    by blast
qed

theorem no_healthy_browser_releases_slot_witness:
  "activeRequests (exec [InitializeBrowsers 0 [], BrowserDisconnected 0, BrowserDisconnected 1,
       BrowserDisconnected 2] emptyPool) < maxConcurrentRequests \<and>
   fst (getPooledPage 5 (exec [InitializeBrowsers 0 [], BrowserDisconnected 0, BrowserDisconnected 1,
       BrowserDisconnected 2] emptyPool)) = None \<and>
   selectBestBrowser (browsers (step (GetPage 5) (exec [InitializeBrowsers 0 [], BrowserDisconnected 0, BrowserDisconnected 1,
       BrowserDisconnected 2] emptyPool))) = None \<and>
   settled (step (ResumeGetPage 6 0 [] PageConfigured) (step (GetPage 5) (exec [InitializeBrowsers 0 [], BrowserDisconnected 0, BrowserDisconnected 1,
       BrowserDisconnected 2] emptyPool)))
     = [(0, Inl NoHealthyBrowser)] \<and>
   activeRequests (step (ResumeGetPage 6 0 [] PageConfigured) (step (GetPage 5) (exec [InitializeBrowsers 0 [], BrowserDisconnected 0, BrowserDisconnected 1,
       BrowserDisconnected 2] emptyPool))) = 0 \<and>
   activeRequests (exec
      [InitializeBrowsers 0 [], BrowserDisconnected 1, BrowserDisconnected 2,
       GetPage 1, ResumeGetPage 2 0 [] PageConfigured, GetPage 1,
       ResumeGetPage 2 1 [] PageConfigured, GetPage 1,
       ResumeGetPage 2 2 [] PageConfigured, GetPage 1,
       ResumeGetPage 2 3 [] PageConfigured, GetPage 1,
       ResumeGetPage 2 4 [] PageConfigured, GetPage 1,
       ResumeGetPage 2 5 [] PageConfigured, GetPage 1,
       ResumeGetPage 2 6 [] PageConfigured, GetPage 1,
       ResumeGetPage 2 7 [] PageConfigured]
      emptyPool) = 0 \<and>
   fst (getPooledPage 5 (exec
      [InitializeBrowsers 0 [], BrowserDisconnected 1, BrowserDisconnected 2,
       GetPage 1, ResumeGetPage 2 0 [] PageConfigured, GetPage 1,
       ResumeGetPage 2 1 [] PageConfigured, GetPage 1,
       ResumeGetPage 2 2 [] PageConfigured, GetPage 1,
       ResumeGetPage 2 3 [] PageConfigured, GetPage 1,
       ResumeGetPage 2 4 [] PageConfigured, GetPage 1,
       ResumeGetPage 2 5 [] PageConfigured, GetPage 1,
       ResumeGetPage 2 6 [] PageConfigured, GetPage 1,
       ResumeGetPage 2 7 [] PageConfigured]
      emptyPool)) = None \<and>
   map activePages (browsers (exec
      [InitializeBrowsers 0 [], BrowserDisconnected 1, BrowserDisconnected 2,
       GetPage 1, ResumeGetPage 2 0 [] PageConfigured, GetPage 1,
       ResumeGetPage 2 1 [] PageConfigured, GetPage 1,
       ResumeGetPage 2 2 [] PageConfigured, GetPage 1,
       ResumeGetPage 2 3 [] PageConfigured, GetPage 1,
       ResumeGetPage 2 4 [] PageConfigured, GetPage 1,
       ResumeGetPage 2 5 [] PageConfigured, GetPage 1,
       ResumeGetPage 2 6 [] PageConfigured, GetPage 1,
       ResumeGetPage 2 7 [] PageConfigured]
      emptyPool)) = [8, 0, 0] \<and>
   fst (createNewPage 6 [LaunchThrows] PageConfigured (step (GetPage 5) (exec
      [InitializeBrowsers 0 [], BrowserDisconnected 1, BrowserDisconnected 2,
       GetPage 1, ResumeGetPage 2 0 [] PageConfigured, GetPage 1,
       ResumeGetPage 2 1 [] PageConfigured, GetPage 1,
       ResumeGetPage 2 2 [] PageConfigured, GetPage 1,
       ResumeGetPage 2 3 [] PageConfigured, GetPage 1,
       ResumeGetPage 2 4 [] PageConfigured, GetPage 1,
       ResumeGetPage 2 5 [] PageConfigured, GetPage 1,
       ResumeGetPage 2 6 [] PageConfigured, GetPage 1,
       ResumeGetPage 2 7 [] PageConfigured]
      emptyPool)))
     = Some (Inl NoHealthyBrowser) \<and>
   last (settled (step (ResumeGetPage 6 8 [LaunchThrows] PageConfigured) (step (GetPage 5) (exec
      [InitializeBrowsers 0 [], BrowserDisconnected 1, BrowserDisconnected 2,
       GetPage 1, ResumeGetPage 2 0 [] PageConfigured, GetPage 1,
       ResumeGetPage 2 1 [] PageConfigured, GetPage 1,
       ResumeGetPage 2 2 [] PageConfigured, GetPage 1,
       ResumeGetPage 2 3 [] PageConfigured, GetPage 1,
       ResumeGetPage 2 4 [] PageConfigured, GetPage 1,
       ResumeGetPage 2 5 [] PageConfigured, GetPage 1,
       ResumeGetPage 2 6 [] PageConfigured, GetPage 1,
       ResumeGetPage 2 7 [] PageConfigured]
      emptyPool))))
     = (8, Inl NoHealthyBrowser) \<and>
   activeRequests (step (ResumeGetPage 6 8 [LaunchThrows] PageConfigured) (step (GetPage 5) (exec
      [InitializeBrowsers 0 [], BrowserDisconnected 1, BrowserDisconnected 2,
       GetPage 1, ResumeGetPage 2 0 [] PageConfigured, GetPage 1,
       ResumeGetPage 2 1 [] PageConfigured, GetPage 1,
       ResumeGetPage 2 2 [] PageConfigured, GetPage 1,
       ResumeGetPage 2 3 [] PageConfigured, GetPage 1,
       ResumeGetPage 2 4 [] PageConfigured, GetPage 1,
       ResumeGetPage 2 5 [] PageConfigured, GetPage 1,
       ResumeGetPage 2 6 [] PageConfigured, GetPage 1,
       ResumeGetPage 2 7 [] PageConfigured]
      emptyPool))) = 0"
proof -
  let ?s = "exec [InitializeBrowsers 0 [], BrowserDisconnected 0, BrowserDisconnected 1,
       BrowserDisconnected 2] emptyPool"
  let ?t = "exec
      [InitializeBrowsers 0 [], BrowserDisconnected 1, BrowserDisconnected 2,
       GetPage 1, ResumeGetPage 2 0 [] PageConfigured, GetPage 1,
       ResumeGetPage 2 1 [] PageConfigured, GetPage 1,
       ResumeGetPage 2 2 [] PageConfigured, GetPage 1,
       ResumeGetPage 2 3 [] PageConfigured, GetPage 1,
       ResumeGetPage 2 4 [] PageConfigured, GetPage 1,
       ResumeGetPage 2 5 [] PageConfigured, GetPage 1,
       ResumeGetPage 2 6 [] PageConfigured, GetPage 1,
       ResumeGetPage 2 7 [] PageConfigured]
      emptyPool"
  have a: "activeRequests ?s = 0" by code_simp
  have m: "fst (getPooledPage 5 ?s) = None" by code_simp
  have n: "selectBestBrowser (browsers (step (GetPage 5) ?s)) = None" by code_simp
  have c: "requestCount ?s = 0" by code_simp
  have st: "settled ?s = []" by code_simp
  from a have lt: "activeRequests ?s < maxConcurrentRequests" by (simp add: maxConcurrentRequests_def)
  note thm1 = no_healthy_browser_releases_slot [of "[InitializeBrowsers 0 [], BrowserDisconnected 0, BrowserDisconnected 1,
       BrowserDisconnected 2]" 5 6 "[]" PageConfigured, unfolded Let_def]
  from thm1 n have e: "fst (createNewPage 6 [] PageConfigured (step (GetPage 5) ?s)) = Some (Inl NoHealthyBrowser)"
    by blast
  from thm1 lt m e
  have "settled (step (ResumeGetPage 6 (requestCount ?s) [] PageConfigured) (step (GetPage 5) ?s))
          = settled ?s @ [(requestCount ?s, Inl NoHealthyBrowser)] \<and>
        activeRequests (step (ResumeGetPage 6 (requestCount ?s) [] PageConfigured) (step (GetPage 5) ?s))
          = activeRequests ?s"
    by blast
  then have S: "settled (step (ResumeGetPage 6 0 [] PageConfigured) (step (GetPage 5) ?s))
          = [(0, Inl NoHealthyBrowser)] \<and>
        activeRequests (step (ResumeGetPage 6 0 [] PageConfigured) (step (GetPage 5) ?s)) = 0"
    unfolding c st a by simp
  have a': "activeRequests ?t = 0" by code_simp
  have m': "fst (getPooledPage 5 ?t) = None" by code_simp
  have b': "map activePages (browsers ?t) = [8, 0, 0]" by code_simp
  have c': "requestCount ?t = 8" by code_simp
  have e': "fst (createNewPage 6 [LaunchThrows] PageConfigured (step (GetPage 5) ?t))
              = Some (Inl NoHealthyBrowser)"
    by code_simp
  from a' have lt': "activeRequests ?t < maxConcurrentRequests" by (simp add: maxConcurrentRequests_def)
  from no_healthy_browser_releases_slot [of "[InitializeBrowsers 0 [], BrowserDisconnected 1, BrowserDisconnected 2,
       GetPage 1, ResumeGetPage 2 0 [] PageConfigured, GetPage 1,
       ResumeGetPage 2 1 [] PageConfigured, GetPage 1,
       ResumeGetPage 2 2 [] PageConfigured, GetPage 1,
       ResumeGetPage 2 3 [] PageConfigured, GetPage 1,
       ResumeGetPage 2 4 [] PageConfigured, GetPage 1,
       ResumeGetPage 2 5 [] PageConfigured, GetPage 1,
       ResumeGetPage 2 6 [] PageConfigured, GetPage 1,
       ResumeGetPage 2 7 [] PageConfigured]" 5 6 "[LaunchThrows]" PageConfigured, unfolded Let_def]
       lt' m' e'
  have "settled (step (ResumeGetPage 6 (requestCount ?t) [LaunchThrows] PageConfigured) (step (GetPage 5) ?t))
          = settled ?t @ [(requestCount ?t, Inl NoHealthyBrowser)] \<and>
        activeRequests (step (ResumeGetPage 6 (requestCount ?t) [LaunchThrows] PageConfigured) (step (GetPage 5) ?t))
          = activeRequests ?t"
    by blast
  then have T: "last (settled (step (ResumeGetPage 6 8 [LaunchThrows] PageConfigured) (step (GetPage 5) ?t)))
          = (8, Inl NoHealthyBrowser) \<and>
        activeRequests (step (ResumeGetPage 6 8 [LaunchThrows] PageConfigured) (step (GetPage 5) ?t)) = 0"
    unfolding c' a' by simp
  from lt m n S a' m' b' e' T show ?thesis by blast
qed

lemma logsExtend_refl: "logsExtend s s" by (simp add: logsExtend_def)

lemma logsExtend_trans: "logsExtend s s1 \<Longrightarrow> logsExtend s1 s2 \<Longrightarrow> logsExtend s s2"
  by (auto simp: logsExtend_def)

lemma logs_getPage_processNext:
  "logsExtend s (getPage now r s)"
  "logsExtend s' (processNextQueuedRequest now' s')"
proof (induction now r s and now' s' rule: getPage_processNextQueuedRequest.induct)
  case (1 now r s)
  show ?case
  proof (cases "activeRequests s \<ge> maxConcurrentRequests")
    case True
    then show ?thesis by (simp add: getPage_full logsExtend_def)
  next
    case False
    obtain x s2 where g: "getPooledPage now (takeSlot r s) = (x, s2)" by fastforce
    from getPooledPage_frame [OF g] obtain pp where s2: "s2 = (takeSlot r s)\<lparr> pagePool := pp \<rparr>" by blast
    show ?thesis
    proof (cases x)
      case None
      with g False have "getPage now r s = s2\<lparr> creating := creating s2 @ [r] \<rparr>"
        by (simp add: getPage_miss)
      then show ?thesis unfolding s2 by (simp add: logsExtend_def takeSlot_def)
    next
      case (Some pooledPage)
      let ?s3 = "s2\<lparr> settled := settled s2 @ [(r, Inr pooledPage)], onLoan := onLoan s2 @ [pooledPage],
            activeRequests := activeRequests s2 - 1 \<rparr>"
      from Some g False have eq: "getPage now r s = processNextQueuedRequest now ?s3"
        by (simp add: getPage_pooled)
      have b: "logsExtend ?s3 (processNextQueuedRequest now ?s3)"
        using "1.IH" [OF False refl g [unfolded takeSlot_def, symmetric] _ refl] Some by simp
      have a: "logsExtend s ?s3" unfolding s2 by (simp add: logsExtend_def takeSlot_def)
      show ?thesis unfolding eq by (rule logsExtend_trans [OF a b])
    qed
  qed
next
  case (2 now s)
  show ?case
  proof (cases "requestQueue s \<noteq> [] \<and> activeRequests s < maxConcurrentRequests")
    case False
    then show ?thesis by (simp add: processNext_idle logsExtend_refl)
  next
    case True
    then obtain nextRequest rest where q: "requestQueue s = nextRequest # rest"
      by (cases "requestQueue s") auto
    let ?s = "s\<lparr> requestQueue := rest \<rparr>"
    have eq: "processNextQueuedRequest now s = getPage now (request nextRequest) ?s"
      using q True by (simp add: processNext_wake)
    have b: "logsExtend ?s (getPage now (request nextRequest) ?s)"
      using "2.IH" [of nextRequest rest] q True by simp
    have a: "logsExtend s ?s" by (simp add: logsExtend_def)
    show ?thesis unfolding eq by (rule logsExtend_trans [OF a b])
  qed
qed

lemma getPage_takes_slot:
  assumes "activeRequests s < maxConcurrentRequests"
  shows "\<exists>more. granted (getPage now r s) = granted s @ (r, map request (requestQueue s)) # more"
proof -
  from assms have False: "\<not> activeRequests s \<ge> maxConcurrentRequests" by simp
  obtain x s2 where g: "getPooledPage now (takeSlot r s) = (x, s2)" by fastforce
  from getPooledPage_frame [OF g] obtain pp where s2: "s2 = (takeSlot r s)\<lparr> pagePool := pp \<rparr>" by blast
  show ?thesis
  proof (cases x)
    case None
    with g False have "getPage now r s = s2\<lparr> creating := creating s2 @ [r] \<rparr>"
      by (simp add: getPage_miss)
    then show ?thesis unfolding s2 by (simp add: takeSlot_def)
  next
    case (Some pooledPage)
    let ?s3 = "s2\<lparr> settled := settled s2 @ [(r, Inr pooledPage)], onLoan := onLoan s2 @ [pooledPage],
          activeRequests := activeRequests s2 - 1 \<rparr>"
    from Some g False have eq: "getPage now r s = processNextQueuedRequest now ?s3"
      by (simp add: getPage_pooled)
    from logs_getPage_processNext(2) [of ?s3 now] obtain more where
      "granted (processNextQueuedRequest now ?s3) = granted ?s3 @ more"
      by (auto simp: logsExtend_def)
    then show ?thesis unfolding eq s2 by (simp add: takeSlot_def)
  qed
qed

lemma closePage_admission:
  "activeRequests (closePage now resetOk closeOk p s) = activeRequests s \<and>
   requestQueue (closePage now resetOk closeOk p s) = requestQueue s \<and>
   granted (closePage now resetOk closeOk p s) = granted s"
  using closePage_sameAdmission [of s now resetOk closeOk p] by (simp add: sameAdmission_def)

lemma slots_getPage_processNext:
  "activeRequests s = int (length (creating s)) \<longrightarrow>
     activeRequests (getPage now r s) = int (length (creating (getPage now r s)))"
  "activeRequests s' = int (length (creating s')) \<longrightarrow>
     activeRequests (processNextQueuedRequest now' s')
       = int (length (creating (processNextQueuedRequest now' s')))"
proof (induction now r s and now' s' rule: getPage_processNextQueuedRequest.induct)
  case (1 now r s)
  show ?case
  proof
    assume J: "activeRequests s = int (length (creating s))"
    show "activeRequests (getPage now r s) = int (length (creating (getPage now r s)))"
    proof (cases "activeRequests s \<ge> maxConcurrentRequests")
      case True
      with J show ?thesis by (simp add: getPage_full)
    next
      case False
      obtain x s2 where g: "getPooledPage now (takeSlot r s) = (x, s2)" by fastforce
      from getPooledPage_frame [OF g] obtain pp where s2: "s2 = (takeSlot r s)\<lparr> pagePool := pp \<rparr>"
        by blast
      show ?thesis
      proof (cases x)
        case None
        with g False have "getPage now r s = s2\<lparr> creating := creating s2 @ [r] \<rparr>"
          by (simp add: getPage_miss)
        then show ?thesis unfolding s2 using J by (simp add: takeSlot_def)
      next
        case (Some pooledPage)
        let ?s3 = "s2\<lparr> settled := settled s2 @ [(r, Inr pooledPage)], onLoan := onLoan s2 @ [pooledPage],
            activeRequests := activeRequests s2 - 1 \<rparr>"
        from Some g False have eq: "getPage now r s = processNextQueuedRequest now ?s3"
          by (simp add: getPage_pooled)
        have a: "activeRequests ?s3 = int (length (creating ?s3))"
          unfolding s2 using J by (simp add: takeSlot_def)
        have b: "activeRequests ?s3 = int (length (creating ?s3)) \<longrightarrow>
            activeRequests (processNextQueuedRequest now ?s3)
              = int (length (creating (processNextQueuedRequest now ?s3)))"
          using "1.IH" [OF False refl g [unfolded takeSlot_def, symmetric] _ refl] Some by simp
        from a b show ?thesis unfolding eq by (rule rev_mp)
      qed
    qed
  qed
next
  case (2 now s)
  show ?case
  proof
    assume J: "activeRequests s = int (length (creating s))"
    show "activeRequests (processNextQueuedRequest now s)
            = int (length (creating (processNextQueuedRequest now s)))"
    proof (cases "requestQueue s \<noteq> [] \<and> activeRequests s < maxConcurrentRequests")
      case False
      with J show ?thesis by (simp add: processNext_idle)
    next
      case True
      then obtain nextRequest rest where q: "requestQueue s = nextRequest # rest"
        by (cases "requestQueue s") auto
      let ?s = "s\<lparr> requestQueue := rest \<rparr>"
      have eq: "processNextQueuedRequest now s = getPage now (request nextRequest) ?s"
        using q True by (simp add: processNext_wake)
      have a: "activeRequests ?s = int (length (creating ?s))" using J by simp
      have b: "activeRequests ?s = int (length (creating ?s)) \<longrightarrow>
          activeRequests (getPage now (request nextRequest) ?s)
            = int (length (creating (getPage now (request nextRequest) ?s)))"
        using "2.IH" [of nextRequest rest] q True by simp
      from a b show ?thesis unfolding eq by (rule rev_mp)
    qed
  qed
qed

lemma step_slots:
  assumes J: "activeRequests s = int (length (creating s))"
  shows "activeRequests (step e s) = int (length (creating (step e s)))"
proof -
  have frame: "activeRequests t = int (length (creating t))" if "sameAdmission s t" for t
    using that J by (simp add: sameAdmission_def)
  show ?thesis
  proof (cases e)
    case (InitializeBrowsers now failing)
    then show ?thesis using frame [OF initializeBrowsers_sameAdmission] by simp
  next
    case (GetPage now)
    with slots_getPage_processNext(1) [of "s\<lparr> requestCount := Suc (requestCount s) \<rparr>" now "requestCount s"] J
    show ?thesis by simp
  next
    case (ResumeGetPage now r outcomes created)
    show ?thesis
    proof (cases "r \<in> set (creating s)")
      case False
      with ResumeGetPage J show ?thesis by simp
    next
      case True
      obtain x s1 where c: "createNewPage now outcomes created s = (x, s1)" by fastforce
      note f = frame [OF createNewPage_sameAdmission [OF c]]
      from createNewPage_sameAdmission [OF c] have cr: "creating s1 = creating s"
        by (simp add: sameAdmission_def)
      show ?thesis
      proof (cases x)
        case None
        with c True ResumeGetPage f show ?thesis by (simp add: resumeGetPage_def)
      next
        case (Some result)
        let ?s2 = "s1\<lparr> creating := remove1 r (creating s1), settled := settled s1 @ [(r, result)],
                  onLoan := (case result of Inl e \<Rightarrow> onLoan s1 | Inr p \<Rightarrow> onLoan s1 @ [p]),
                  activeRequests := activeRequests s1 - 1 \<rparr>"
        from True cr have "r \<in> set (creating s1)" by simp
        then have "length (creating s1) = Suc (length (remove1 r (creating s1)))"
          by (simp add: length_remove1) (cases "creating s1"; simp)
        with f have "activeRequests ?s2 = int (length (creating ?s2))" by simp
        with slots_getPage_processNext(2) [of ?s2 now]
        have "activeRequests (processNextQueuedRequest now ?s2)
                = int (length (creating (processNextQueuedRequest now ?s2)))"
          by (rule mp)
        with Some c True ResumeGetPage show ?thesis
          by (simp add: resumeGetPage_result [OF c [unfolded Some]])
      qed
    qed
  next
    case (ClosePage now resetOk closeOk p)
    then show ?thesis using frame [OF closePage_sameAdmission] by simp
  next
    case (CleanupPagePool now closeFails)
    then show ?thesis using frame [OF cleanupPagePool_sameAdmission] by simp
  next
    case (BrowserHealthCheck now outcomes)
    then show ?thesis using frame [OF performBrowserHealthCheck_sameAdmission] by simp
  next
    case (RestartBrowsers now closeFails failing)
    then show ?thesis using frame [OF restartBrowsers_sameAdmission] by simp
  next
    case (BrowserDisconnected b)
    with J show ?thesis by (simp add: onDisconnected_def)
  next
    case (TargetDestroyed b)
    with J show ?thesis by (simp add: onTargetDestroyed_def)
  next
    case (PageClosed p)
    then show ?thesis using frame [OF pageClose_sameAdmission] J by simp
  qed
qed

lemma exec_slots:
  "activeRequests (exec evs emptyPool) = int (length (creating (exec evs emptyPool)))"
  by (rule exec_induct [where P = "\<lambda>s. activeRequests s = int (length (creating s))"])
     (simp_all add: step_slots, simp add: emptyPool_def)

text \<open>
  Claim C1, as the code has it. \<open>closePage\<close> does not touch \<open>activeRequests\<close>, the queue
  or the order of grants. The slot is held only while \<open>getPage\<close> runs: when a suspended
  \<open>getPage\<close> gets its result (a page or an error) it returns it, and its \<open>finally\<close>
  block gives the slot back, which lowers \<open>activeRequests\<close> by one when nobody is waiting
  and otherwise hands the slot to the request at the head of the queue; a \<open>getPage\<close>
  served from the pool has given its slot back when it returns the page. So in every state
  that a run reaches, \<open>activeRequests\<close> is the number of \<open>getPage\<close> calls suspended in
  \<open>createNewPage\<close>, whatever the number of pages on loan.
\<close>

theorem slot_released_when_getPage_returns:
  "activeRequests (closePage now resetOk closeOk p s) = activeRequests s \<and>
   requestQueue (closePage now resetOk closeOk p s) = requestQueue s \<and>
   granted (closePage now resetOk closeOk p s) = granted s \<and>
   (let t = exec evs emptyPool; t' = step (ResumeGetPage now r outcomes created) t in
      r \<in> set (creating t) \<and> fst (createNewPage now outcomes created t) = Some result \<longrightarrow>
        (r, result) \<in> set (settled t') \<and>
        (requestQueue t = [] \<longrightarrow> activeRequests t' = activeRequests t - 1 \<and> granted t' = granted t) \<and>
        (requestQueue t \<noteq> [] \<longrightarrow>
           (\<exists>more. granted t' = granted t @
               (request (hd (requestQueue t)), map request (tl (requestQueue t))) # more))) \<and>
   (let t = exec evs emptyPool; t' = step (GetPage now) t in
      activeRequests t < maxConcurrentRequests \<and> fst (getPooledPage now t) = Some pooled \<longrightarrow>
        (requestCount t, Inr pooled) \<in> set (settled t') \<and> pooled \<in> set (onLoan t') \<and>
        activeRequests t' = activeRequests t) \<and>
   activeRequests (exec evs emptyPool) = int (length (creating (exec evs emptyPool)))"
proof -
  define t where "t = exec evs emptyPool"
  have inv: "admissionInv t" unfolding t_def by (rule exec_admissionInv)
  have A: "(r, result) \<in> set (settled (step (ResumeGetPage now r outcomes created) t)) \<and>
        (requestQueue t = [] \<longrightarrow> activeRequests (step (ResumeGetPage now r outcomes created) t) = activeRequests t - 1 \<and>
            granted (step (ResumeGetPage now r outcomes created) t) = granted t) \<and>
        (requestQueue t \<noteq> [] \<longrightarrow>
           (\<exists>more. granted (step (ResumeGetPage now r outcomes created) t) = granted t @
               (request (hd (requestQueue t)), map request (tl (requestQueue t))) # more))"
    if r: "r \<in> set (creating t)" and c: "fst (createNewPage now outcomes created t) = Some result"
  proof -
    obtain s1 where c1: "createNewPage now outcomes created t = (Some result, s1)"
      using c by (cases "createNewPage now outcomes created t") auto
    from createNewPage_sameAdmission [OF c1] have same: "activeRequests s1 = activeRequests t"
      "requestQueue s1 = requestQueue t" "granted s1 = granted t"
      by (simp_all add: sameAdmission_def)
    from createNewPage_settled [OF c1] have st: "settled s1 = settled t" .
    let ?s2 = "s1\<lparr> creating := remove1 r (creating s1), settled := settled s1 @ [(r, result)],
                  onLoan := (case result of Inl e \<Rightarrow> onLoan s1 | Inr p \<Rightarrow> onLoan s1 @ [p]),
                  activeRequests := activeRequests s1 - 1 \<rparr>"
    have eq: "step (ResumeGetPage now r outcomes created) t = processNextQueuedRequest now ?s2"
      using r resumeGetPage_result [OF c1] by simp
    from logs_getPage_processNext(2) [of ?s2 now] obtain more where
      "settled (processNextQueuedRequest now ?s2) = settled ?s2 @ more"
      by (auto simp: logsExtend_def)
    then have 1: "(r, result) \<in> set (settled (step (ResumeGetPage now r outcomes created) t))"
      unfolding eq by simp
    have 2: "activeRequests (step (ResumeGetPage now r outcomes created) t) = activeRequests t - 1 \<and>
            granted (step (ResumeGetPage now r outcomes created) t) = granted t"
      if "requestQueue t = []"
      unfolding eq using that same by (simp add: processNext_idle)
    have 3: "\<exists>more. granted (step (ResumeGetPage now r outcomes created) t) = granted t @
               (request (hd (requestQueue t)), map request (tl (requestQueue t))) # more"
      if "requestQueue t \<noteq> []"
    proof -
      from that obtain nextRequest rest where q: "requestQueue t = nextRequest # rest"
        by (cases "requestQueue t") auto
      from inv have "activeRequests t \<le> maxConcurrentRequests" by (simp add: admissionInv_def adm_def)
      then have lt: "activeRequests ?s2 < maxConcurrentRequests" using same by simp
      have "processNextQueuedRequest now ?s2 = getPage now (request nextRequest) (?s2\<lparr> requestQueue := rest \<rparr>)"
        using q same lt by (intro processNext_wake) simp_all
      moreover from getPage_takes_slot [of "?s2\<lparr> requestQueue := rest \<rparr>" now "request nextRequest"] lt
      obtain more where "granted (getPage now (request nextRequest) (?s2\<lparr> requestQueue := rest \<rparr>)) =
          granted t @ (request nextRequest, map request rest) # more"
        using same by auto
      ultimately show ?thesis unfolding eq using q by simp
    qed
    from 1 2 3 show ?thesis by blast
  qed
  have B: "(requestCount t, Inr pooled) \<in> set (settled (step (GetPage now) t)) \<and>
        pooled \<in> set (onLoan (step (GetPage now) t)) \<and>
        activeRequests (step (GetPage now) t) = activeRequests t"
    if lt: "activeRequests t < maxConcurrentRequests" and hit: "fst (getPooledPage now t) = Some pooled"
  proof -
    let ?t' = "t\<lparr> requestCount := Suc (requestCount t) \<rparr>"
    let ?r = "requestCount t"
    from inv lt have q: "requestQueue t = []" by (auto simp: admissionInv_def adm_def)
    obtain x s2 where g: "getPooledPage now (takeSlot ?r ?t') = (x, s2)" by fastforce
    have "x = fst (getPooledPage now t)"
      using g by (auto simp: getPooledPage_def takeSlot_def Let_def split: option.splits)
    with hit have x: "x = Some pooled" by simp
    from getPooledPage_frame [OF g] obtain pp where s2: "s2 = (takeSlot ?r ?t')\<lparr> pagePool := pp \<rparr>" by blast
    let ?s3 = "s2\<lparr> settled := settled s2 @ [(?r, Inr pooled)], onLoan := onLoan s2 @ [pooled],
          activeRequests := activeRequests s2 - 1 \<rparr>"
    have "step (GetPage now) t = processNextQueuedRequest now ?s3"
      using lt g x by (simp add: getPage_pooled)
    also have "\<dots> = ?s3" unfolding s2 using q by (simp add: processNext_idle takeSlot_def)
    finally show ?thesis unfolding s2 by (simp add: takeSlot_def)
  qed
  from A B closePage_admission [of now resetOk closeOk p s] exec_slots [of evs] show ?thesis
    unfolding t_def [symmetric] Let_def by blast
qed

theorem slot_released_when_getPage_returns_witness:
  "0 \<in> set (creating (exec [InitializeBrowsers 0 [], GetPage 1] emptyPool)) \<and>
   fst (createNewPage 2 [] PageConfigured (exec [InitializeBrowsers 0 [], GetPage 1] emptyPool))
     = Some (Inr \<lparr> pageId = 0, pageBrowser = 0 \<rparr>) \<and>
   requestQueue (exec [InitializeBrowsers 0 [], GetPage 1] emptyPool) = [] \<and>
   (0, Inr \<lparr> pageId = 0, pageBrowser = 0 \<rparr>) \<in> set (settled (step (ResumeGetPage 2 0 [] PageConfigured)
       (exec [InitializeBrowsers 0 [], GetPage 1] emptyPool))) \<and>
   activeRequests (step (ResumeGetPage 2 0 [] PageConfigured)
       (exec [InitializeBrowsers 0 [], GetPage 1] emptyPool)) = 0 \<and>
   0 \<in> set (creating (exec (replicate 12 (GetPage 0)) emptyPool)) \<and>
   fst (createNewPage 2 [] PageConfigured (exec (replicate 12 (GetPage 0)) emptyPool))
     = Some (Inl NoHealthyBrowser) \<and>
   map request (requestQueue (exec (replicate 12 (GetPage 0)) emptyPool)) = [10, 11] \<and>
   (\<exists>more. granted (step (ResumeGetPage 2 0 [] PageConfigured) (exec (replicate 12 (GetPage 0)) emptyPool))
       = granted (exec (replicate 12 (GetPage 0)) emptyPool) @ (10, [11]) # more) \<and>
   activeRequests (exec [InitializeBrowsers 0 [], GetPage 1, ResumeGetPage 2 0 [] PageConfigured,
       ClosePage 3 True True \<lparr> pageId = 0, pageBrowser = 0 \<rparr>] emptyPool) = 0 \<and>
   fst (getPooledPage 4 (exec [InitializeBrowsers 0 [], GetPage 1, ResumeGetPage 2 0 [] PageConfigured,
       ClosePage 3 True True \<lparr> pageId = 0, pageBrowser = 0 \<rparr>] emptyPool)) = Some \<lparr> pageId = 0, pageBrowser = 0 \<rparr> \<and>
   (1, Inr \<lparr> pageId = 0, pageBrowser = 0 \<rparr>) \<in> set (settled (step (GetPage 4) (exec [InitializeBrowsers 0 [], GetPage 1, ResumeGetPage 2 0 [] PageConfigured,
       ClosePage 3 True True \<lparr> pageId = 0, pageBrowser = 0 \<rparr>] emptyPool))) \<and>
   activeRequests (step (GetPage 4) (exec [InitializeBrowsers 0 [], GetPage 1, ResumeGetPage 2 0 [] PageConfigured,
       ClosePage 3 True True \<lparr> pageId = 0, pageBrowser = 0 \<rparr>] emptyPool)) = 0"
proof -
  let ?t = "exec [InitializeBrowsers 0 [], GetPage 1] emptyPool"
  let ?u = "exec (replicate 12 (GetPage 0)) emptyPool"
  have t1: "0 \<in> set (creating ?t)" by code_simp
  have t2: "fst (createNewPage 2 [] PageConfigured ?t) = Some (Inr \<lparr> pageId = 0, pageBrowser = 0 \<rparr>)"
    by code_simp
  have t3: "requestQueue ?t = []" by code_simp
  have t4: "activeRequests ?t = 1" by code_simp
  have u1: "0 \<in> set (creating ?u)" by code_simp
  have u2: "fst (createNewPage 2 [] PageConfigured ?u) = Some (Inl NoHealthyBrowser)" by code_simp
  have u3: "map request (requestQueue ?u) = [10, 11]" by code_simp
  then have u4: "requestQueue ?u \<noteq> []" "request (hd (requestQueue ?u)) = 10"
    "map request (tl (requestQueue ?u)) = [11]"
    by (cases "requestQueue ?u"; simp)+
  from slot_released_when_getPage_returns
         [of 2 True True "\<lparr> pageId = 0, pageBrowser = 0 \<rparr>" emptyPool "[InitializeBrowsers 0 [], GetPage 1]" 0 "[]"
            PageConfigured "Inr \<lparr> pageId = 0, pageBrowser = 0 \<rparr>" "\<lparr> pageId = 0, pageBrowser = 0 \<rparr>"]
       t1 t2 t3 t4
  have T: "(0, Inr \<lparr> pageId = 0, pageBrowser = 0 \<rparr>) \<in> set (settled (step (ResumeGetPage 2 0 [] PageConfigured) ?t)) \<and>
           activeRequests (step (ResumeGetPage 2 0 [] PageConfigured) ?t) = 0"
    unfolding Let_def by simp
  from slot_released_when_getPage_returns
         [of 2 True True "\<lparr> pageId = 0, pageBrowser = 0 \<rparr>" emptyPool "replicate 12 (GetPage 0)" 0 "[]"
            PageConfigured "Inl NoHealthyBrowser" "\<lparr> pageId = 0, pageBrowser = 0 \<rparr>"]
       u1 u2 u4
  have U: "\<exists>more. granted (step (ResumeGetPage 2 0 [] PageConfigured) ?u) = granted ?u @ (10, [11]) # more"
    unfolding Let_def by simp
  have v1: "activeRequests (exec [InitializeBrowsers 0 [], GetPage 1, ResumeGetPage 2 0 [] PageConfigured,
       ClosePage 3 True True \<lparr> pageId = 0, pageBrowser = 0 \<rparr>] emptyPool) = 0" by code_simp
  have v2: "fst (getPooledPage 4 (exec [InitializeBrowsers 0 [], GetPage 1, ResumeGetPage 2 0 [] PageConfigured,
       ClosePage 3 True True \<lparr> pageId = 0, pageBrowser = 0 \<rparr>] emptyPool)) = Some \<lparr> pageId = 0, pageBrowser = 0 \<rparr>" by code_simp
  have v3: "requestCount (exec [InitializeBrowsers 0 [], GetPage 1, ResumeGetPage 2 0 [] PageConfigured,
       ClosePage 3 True True \<lparr> pageId = 0, pageBrowser = 0 \<rparr>] emptyPool) = 1" by code_simp
  from v1 have v4: "activeRequests (exec [InitializeBrowsers 0 [], GetPage 1, ResumeGetPage 2 0 [] PageConfigured,
       ClosePage 3 True True \<lparr> pageId = 0, pageBrowser = 0 \<rparr>] emptyPool) < maxConcurrentRequests"
    by (simp add: maxConcurrentRequests_def)
  from slot_released_when_getPage_returns
         [of 4 True True "\<lparr> pageId = 0, pageBrowser = 0 \<rparr>" emptyPool "[InitializeBrowsers 0 [], GetPage 1, ResumeGetPage 2 0 [] PageConfigured,
       ClosePage 3 True True \<lparr> pageId = 0, pageBrowser = 0 \<rparr>]" 0 "[]"
            PageConfigured "Inr \<lparr> pageId = 0, pageBrowser = 0 \<rparr>" "\<lparr> pageId = 0, pageBrowser = 0 \<rparr>"]
       v4 v2
  have "(requestCount (exec [InitializeBrowsers 0 [], GetPage 1, ResumeGetPage 2 0 [] PageConfigured,
       ClosePage 3 True True \<lparr> pageId = 0, pageBrowser = 0 \<rparr>] emptyPool), Inr \<lparr> pageId = 0, pageBrowser = 0 \<rparr>) \<in> set (settled (step (GetPage 4) (exec [InitializeBrowsers 0 [], GetPage 1, ResumeGetPage 2 0 [] PageConfigured,
       ClosePage 3 True True \<lparr> pageId = 0, pageBrowser = 0 \<rparr>] emptyPool))) \<and>
        activeRequests (step (GetPage 4) (exec [InitializeBrowsers 0 [], GetPage 1, ResumeGetPage 2 0 [] PageConfigured,
       ClosePage 3 True True \<lparr> pageId = 0, pageBrowser = 0 \<rparr>] emptyPool)) = activeRequests (exec [InitializeBrowsers 0 [], GetPage 1, ResumeGetPage 2 0 [] PageConfigured,
       ClosePage 3 True True \<lparr> pageId = 0, pageBrowser = 0 \<rparr>] emptyPool)"
    unfolding Let_def by blast
  then have V: "(1, Inr \<lparr> pageId = 0, pageBrowser = 0 \<rparr>) \<in> set (settled (step (GetPage 4) (exec [InitializeBrowsers 0 [], GetPage 1, ResumeGetPage 2 0 [] PageConfigured,
       ClosePage 3 True True \<lparr> pageId = 0, pageBrowser = 0 \<rparr>] emptyPool))) \<and>
        activeRequests (step (GetPage 4) (exec [InitializeBrowsers 0 [], GetPage 1, ResumeGetPage 2 0 [] PageConfigured,
       ClosePage 3 True True \<lparr> pageId = 0, pageBrowser = 0 \<rparr>] emptyPool)) = 0"
    unfolding v3 v1 by simp
  from t1 t2 t3 T u1 u2 u3 U v1 v2 V show ?thesis by blast
qed

text \<open>
  Claim C1 as stated fails: after one \<open>getPage\<close> has returned page 0, the page is on
  loan and \<open>activeRequests\<close> is already 0; \<open>closePage\<close> on that page does not lower it.
\<close>

theorem closePage_releases_slot_counterexample:
  "settled (exec [InitializeBrowsers 0 [], GetPage 1, ResumeGetPage 2 0 [] PageConfigured] emptyPool)
     = [(0, Inr \<lparr> pageId = 0, pageBrowser = 0 \<rparr>)] \<and>
   onLoan (exec [InitializeBrowsers 0 [], GetPage 1, ResumeGetPage 2 0 [] PageConfigured] emptyPool)
     = [\<lparr> pageId = 0, pageBrowser = 0 \<rparr>] \<and>
   activeRequests (exec [InitializeBrowsers 0 [], GetPage 1, ResumeGetPage 2 0 [] PageConfigured] emptyPool) = 0 \<and>
   activeRequests (closePage 3 True True \<lparr> pageId = 0, pageBrowser = 0 \<rparr>
       (exec [InitializeBrowsers 0 [], GetPage 1, ResumeGetPage 2 0 [] PageConfigured] emptyPool))
     \<noteq> activeRequests (exec [InitializeBrowsers 0 [], GetPage 1, ResumeGetPage 2 0 [] PageConfigured] emptyPool) - 1"
  by code_simp

subsection \<open>The page pool\<close>

lemma samePool_refl: "samePool s s" by (simp add: samePool_def)

lemma samePool_trans: "samePool s s1 \<Longrightarrow> samePool s1 s2 \<Longrightarrow> samePool s s2"
  by (simp add: samePool_def)

lemma pool_getPage_processNext:
  assumes resp: "\<And>t t'. samePool t t' \<Longrightarrow> P t \<Longrightarrow> P t'"
    and take: "\<And>now t pp t2. P t \<Longrightarrow> getPooledPage now t = (Some pp, t2) \<Longrightarrow>
                  P (t2\<lparr> onLoan := onLoan t2 @ [pp] \<rparr>)"
  shows "P s \<longrightarrow> P (getPage now r s)"
    and "P s' \<longrightarrow> P (processNextQueuedRequest now' s')"
proof (induction now r s and now' s' rule: getPage_processNextQueuedRequest.induct)
  case (1 now r s)
  show ?case
  proof
    assume P: "P s"
    show "P (getPage now r s)"
    proof (cases "activeRequests s \<ge> maxConcurrentRequests")
      case True
      have "samePool s (getPage now r s)" using True by (simp add: getPage_full samePool_def)
      with P show ?thesis by (rule resp [rotated])
    next
      case False
      obtain x s2 where g: "getPooledPage now (takeSlot r s) = (x, s2)" by fastforce
      have "samePool s (takeSlot r s)" by (simp add: takeSlot_def samePool_def)
      with P have P1: "P (takeSlot r s)" by (rule resp [rotated])
      show ?thesis
      proof (cases x)
        case None
        with g have "s2 = takeSlot r s" by (simp add: getPooledPage_None)
        with None g False have eq: "getPage now r s = (takeSlot r s)\<lparr> creating := creating (takeSlot r s) @ [r] \<rparr>"
          by (simp add: getPage_miss)
        have "samePool (takeSlot r s) (getPage now r s)" unfolding eq by (simp add: samePool_def)
        with P1 show ?thesis by (rule resp [rotated])
      next
        case (Some pooledPage)
        let ?s3 = "s2\<lparr> settled := settled s2 @ [(r, Inr pooledPage)], onLoan := onLoan s2 @ [pooledPage],
            activeRequests := activeRequests s2 - 1 \<rparr>"
        from Some g False have eq: "getPage now r s = processNextQueuedRequest now ?s3"
          by (simp add: getPage_pooled)
        from take [OF P1] g Some have "P (s2\<lparr> onLoan := onLoan s2 @ [pooledPage] \<rparr>)" by simp
        moreover have "samePool (s2\<lparr> onLoan := onLoan s2 @ [pooledPage] \<rparr>) ?s3"
          by (simp add: samePool_def)
        ultimately have "P ?s3" by (rule resp [rotated])
        moreover have "P ?s3 \<longrightarrow> P (processNextQueuedRequest now ?s3)"
          using "1.IH" [OF False refl g [unfolded takeSlot_def, symmetric] _ refl] Some by simp
        ultimately show ?thesis unfolding eq by simp
      qed
    qed
  qed
next
  case (2 now s)
  show ?case
  proof
    assume P: "P s"
    show "P (processNextQueuedRequest now s)"
    proof (cases "requestQueue s \<noteq> [] \<and> activeRequests s < maxConcurrentRequests")
      case False
      with P show ?thesis by (simp add: processNext_idle)
    next
      case True
      then obtain nextRequest rest where q: "requestQueue s = nextRequest # rest"
        by (cases "requestQueue s") auto
      let ?s = "s\<lparr> requestQueue := rest \<rparr>"
      have eq: "processNextQueuedRequest now s = getPage now (request nextRequest) ?s"
        using q True by (simp add: processNext_wake)
      have "samePool s ?s" by (simp add: samePool_def)
      with P have "P ?s" by (rule resp [rotated])
      moreover have "P ?s \<longrightarrow> P (getPage now (request nextRequest) ?s)"
        using "2.IH" [of nextRequest rest] q True by simp
      ultimately show ?thesis unfolding eq by simp
    qed
  qed
qed

lemma pool_foldl:
  assumes "\<And>t x. P t \<Longrightarrow> P (f t x)" and "P s"
  shows "P (foldl f s xs)"
  using assms(2) by (induction xs arbitrary: s) (auto intro: assms(1))

lemma createBrowserInstance_samePool: "createBrowserInstance now ok s = Inr s' \<Longrightarrow> samePool s s'"
  by (auto simp: createBrowserInstance_def samePool_def split: if_splits)

lemma replaceUnhealthyBrowser_samePool: "samePool s (replaceUnhealthyBrowser now ro b s)"
  by (auto simp: replaceUnhealthyBrowser_def samePool_def createBrowserInstance_def Let_def
           split: option.splits sum.splits if_splits)

lemma pageClose_samePool: "samePool s (pageClose p s)"
  by (simp add: pageClose_def updatePageCount_def samePool_def Let_def)

lemma updatePageCount_samePool: "samePool s (updatePageCount s)"
  by (simp add: updatePageCount_def samePool_def)

lemma initializeBrowsers_samePool: "samePool s (initializeBrowsers now failing s)"
proof -
  have "samePool s (foldl (\<lambda>s' index. case createBrowserInstance now (index \<notin> set failing) s' of
                                 Inl e \<Rightarrow> s' | Inr s'' \<Rightarrow> s'') s [0 ..< maxBrowsers])"
    by (rule pool_foldl [where P = "samePool s"])
       (auto simp: samePool_refl split: sum.splits
             dest: createBrowserInstance_samePool intro: samePool_trans)
  then show ?thesis by (simp add: initializeBrowsers_def samePool_refl)
qed

lemma performBrowserHealthCheck_samePool: "samePool s (performBrowserHealthCheck now outcomes s)"
  unfolding performBrowserHealthCheck_def Let_def
  by (rule pool_foldl [where P = "samePool s"])
     (auto simp: samePool_refl intro: samePool_trans replaceUnhealthyBrowser_samePool)

lemma samePool_poolInv: "samePool s s' \<Longrightarrow> poolInv s \<Longrightarrow> poolInv s'"
  by (simp add: samePool_def poolInv_def)

lemma distinct_map_update:
  assumes "distinct (map f xs)" "f y = f (xs ! i)"
  shows "distinct (map f (xs[i := y]))"
proof -
  have "f (xs[i := y] ! k) = f (xs ! k)" if "k < length xs" for k
    by (cases "k = i") (use that assms(2) in simp_all)
  then have "map f (xs[i := y]) = map f xs"
    by (simp add: list_eq_iff_nth_eq)
  with assms(1) show ?thesis by simp
qed

lemma getPooledPage_poolInv:
  assumes inv: "poolInv s" and g: "getPooledPage now s = (Some p, s2)"
  shows "poolInv (s2\<lparr> onLoan := onLoan s2 @ [p] \<rparr>)"
proof -
  from getPooledPage_Some [OF g] obtain i where
    i: "i < length (pagePool s)" and pi: "page (pagePool s ! i) = p"
    and ul: "\<not> isLocked (pagePool s ! i)"
    and s2: "s2 = s\<lparr> pagePool := (pagePool s)[i := (pagePool s ! i)\<lparr> isLocked := True, lastUsed := now \<rparr>] \<rparr>"
    by blast
  let ?new = "(pagePool s ! i)\<lparr> isLocked := True, lastUsed := now \<rparr>"
  have mem: "pagePool s ! i \<in> set (pagePool s)" using i by simp
  from inv mem ul pi have pn: "p \<notin> set (onLoan s)" by (auto simp: poolInv_def)
  from inv mem pi have pb: "pageId p < nextPageId s" by (auto simp: poolInv_def)
  have d: "distinct (map page ((pagePool s)[i := ?new]))"
    using inv by (intro distinct_map_update) (simp_all add: poolInv_def)
  have u: "page item \<notin> set (onLoan s) \<and> page item \<noteq> p"
    if "item \<in> set ((pagePool s)[i := ?new])" "\<not> isLocked item" for item
  proof -
    from that obtain j where j: "j < length (pagePool s)" "item = (pagePool s)[i := ?new] ! j"
      by (auto simp: in_set_conv_nth)
    with that(2) have ji: "j \<noteq> i" by (auto simp: nth_list_update)
    with j have it: "item = pagePool s ! j" by simp
    then have "item \<in> set (pagePool s)" using j by simp
    with inv that(2) have "page item \<notin> set (onLoan s)" by (auto simp: poolInv_def)
    moreover have "page item \<noteq> p"
    proof
      assume "page item = p"
      with it pi have "page (pagePool s ! j) = page (pagePool s ! i)" by simp
      moreover from inv have "distinct (map page (pagePool s))" by (simp add: poolInv_def)
      then have "\<forall>a<length (pagePool s). \<forall>b<length (pagePool s).
                   a \<noteq> b \<longrightarrow> page (pagePool s ! a) \<noteq> page (pagePool s ! b)"
        by (simp add: distinct_conv_nth)
      ultimately show False using i j ji by blast
    qed
    ultimately show ?thesis by simp
  qed
  have b: "pageId (page item) < nextPageId s" if "item \<in> set ((pagePool s)[i := ?new])" for item
  proof -
    from that have "item \<in> insert ?new (set (pagePool s))" using set_update_subset_insert by fastforce
    with inv pb pi show ?thesis by (auto simp: poolInv_def)
  qed
  from inv pn pb d u b show ?thesis unfolding s2 by (auto simp: poolInv_def)
qed

lemma getPage_poolInv: "poolInv s \<Longrightarrow> poolInv (getPage now r s)"
  using pool_getPage_processNext(1) [of poolInv s now r] samePool_poolInv getPooledPage_poolInv
  by blast

lemma processNext_poolInv: "poolInv s \<Longrightarrow> poolInv (processNextQueuedRequest now s)"
  using pool_getPage_processNext(2) [of poolInv s now] samePool_poolInv getPooledPage_poolInv
  by blast

lemma createNewPage_poolInv:
  assumes run: "createNewPage now ros co s = (x, s')" and inv: "poolInv s"
  shows "case x of Some (Inr p) \<Rightarrow> poolInv (s'\<lparr> onLoan := onLoan s' @ [p] \<rparr>) | _ \<Rightarrow> poolInv s'"
proof (rule createNewPage_rule [OF run, where P = poolInv])
  show "poolInv s" by (rule inv)
next
  fix t ro b assume "poolInv t"
  moreover have "samePool t (replaceUnhealthyBrowser now ro b (t\<lparr>selections := Suc (selections t)\<rparr>))"
    using replaceUnhealthyBrowser_samePool [of "t\<lparr>selections := Suc (selections t)\<rparr>" now ro b]
    by (simp add: samePool_def)
  ultimately show "poolInv (replaceUnhealthyBrowser now ro b (t\<lparr>selections := Suc (selections t)\<rparr>))"
    by (rule samePool_poolInv [rotated])
next
  fix t assume "poolInv t"
  then show "case Some (Inl NoHealthyBrowser) of Some (Inr p) \<Rightarrow>
                 poolInv (t\<lparr>selections := Suc (selections t), onLoan := onLoan (t\<lparr>selections := Suc (selections t)\<rparr>) @ [p]\<rparr>)
             | _ \<Rightarrow> poolInv (t\<lparr>selections := Suc (selections t)\<rparr>)"
    by (simp add: poolInv_def)
next
  fix t b assume "poolInv t"
  then show "case None of Some (Inr p) \<Rightarrow>
                 poolInv (t\<lparr>selections := Suc (selections t), onLoan := onLoan (t\<lparr>selections := Suc (selections t)\<rparr>) @ [p]\<rparr>)
             | _ \<Rightarrow> poolInv (t\<lparr>selections := Suc (selections t)\<rparr>)"
    by (simp add: poolInv_def)
next
  fix t b y t'
  assume inv: "poolInv t" and sel: "selectBestBrowser (browsers t) = Some b"
    and nf: "\<not> activePages b \<ge> maxPagesPerBrowser" and c: "createNewPage now [] co t = (y, t')"
  from inv have fresh: "\<forall>item\<in>set (pagePool t). page item \<noteq> \<lparr> pageId = nextPageId t, pageBrowser = browserId b \<rparr>"
    "\<lparr> pageId = nextPageId t, pageBrowser = browserId b \<rparr> \<notin> set (onLoan t)"
    by (auto simp: poolInv_def)
  then have fresh': "\<lparr> pageId = nextPageId t, pageBrowser = browserId b \<rparr> \<notin> page ` set (pagePool t)"
    by auto
  from c [unfolded createNewPage_room [OF sel nf]] inv fresh fresh'
  show "case y of Some (Inr p) \<Rightarrow> poolInv (t'\<lparr> onLoan := onLoan t' @ [p] \<rparr>) | _ \<Rightarrow> poolInv t'"
    by (auto simp: poolInv_def Let_def less_Suc_eq split: if_splits)
qed

lemma removePageFromPool_poolInv:
  assumes "poolInv s"
  shows "poolInv (removePageFromPool closeOk pageItem s)"
proof -
  let ?s1 = "case findIndex (\<lambda>item. page item = page pageItem) (pagePool s) of
                  Some index \<Rightarrow> s\<lparr> pagePool := splice1 index (pagePool s) \<rparr>
                | None \<Rightarrow> s"
  have 1: "poolInv ?s1"
  proof (cases "findIndex (\<lambda>item. page item = page pageItem) (pagePool s)")
    case None
    with assms show ?thesis by simp
  next
    case (Some index)
    have "length (splice1 index (pagePool s)) \<le> pagePoolSize"
      using assms length_splice1 [of index "pagePool s"] by (simp add: poolInv_def)
    moreover have "distinct (map page (splice1 index (pagePool s)))"
      using assms by (intro distinct_map_splice1) (simp add: poolInv_def)
    ultimately show ?thesis using Some assms set_splice1 [of index "pagePool s"]
      by (auto simp: poolInv_def)
  qed
  have "samePool ?s1 (removePageFromPool closeOk pageItem s)"
    using pageClose_samePool [of ?s1 "page pageItem"]
      updatePageCount_samePool [of "pageClose (page pageItem) ?s1"]
    by (auto simp: removePageFromPool_def Let_def samePool_def)
  with 1 show ?thesis by (rule samePool_poolInv [rotated])
qed

lemma returnPageToPool_poolInv:
  assumes "poolInv s" "page pageItem \<notin> set (onLoan s)"
  shows "poolInv (returnPageToPool now resetOk closeOk pageItem s)"
proof (cases resetOk)
  case False
  with assms(1) show ?thesis by (simp add: returnPageToPool_def removePageFromPool_poolInv)
next
  case True
  let ?f = "\<lambda>item. if page item = page pageItem then item\<lparr> isLocked := False, lastUsed := now \<rparr> else item"
  have "page \<circ> ?f = page" by (rule ext) simp
  then have "map page (map ?f (pagePool s)) = map page (pagePool s)" by simp
  moreover from assms(1) have "distinct (map page (pagePool s))" by (simp add: poolInv_def)
  ultimately have d: "distinct (map page (map ?f (pagePool s)))" by (simp only:)
  have "returnPageToPool now resetOk closeOk pageItem s = s\<lparr> pagePool := map ?f (pagePool s) \<rparr>"
    using True by (simp add: returnPageToPool_def)
  moreover have "poolInv (s\<lparr> pagePool := map ?f (pagePool s) \<rparr>)"
    unfolding poolInv_def
  proof (intro conjI)
    show "length (pagePool (s\<lparr> pagePool := map ?f (pagePool s) \<rparr>)) \<le> pagePoolSize"
      using assms(1) by (simp add: poolInv_def)
    show "distinct (map page (pagePool (s\<lparr> pagePool := map ?f (pagePool s) \<rparr>)))"
      using d by simp
    show "distinct (onLoan (s\<lparr> pagePool := map ?f (pagePool s) \<rparr>))"
      using assms(1) by (simp add: poolInv_def)
    show "\<forall>item\<in>set (pagePool (s\<lparr> pagePool := map ?f (pagePool s) \<rparr>)).
            \<not> isLocked item \<longrightarrow> page item \<notin> set (onLoan (s\<lparr> pagePool := map ?f (pagePool s) \<rparr>))"
      using assms by (auto simp: poolInv_def)
    show "\<forall>item\<in>set (pagePool (s\<lparr> pagePool := map ?f (pagePool s) \<rparr>)).
            pageId (page item) < nextPageId (s\<lparr> pagePool := map ?f (pagePool s) \<rparr>)"
      using assms(1) by (auto simp: poolInv_def)
    show "\<forall>p\<in>set (onLoan (s\<lparr> pagePool := map ?f (pagePool s) \<rparr>)).
            pageId p < nextPageId (s\<lparr> pagePool := map ?f (pagePool s) \<rparr>)"
      using assms(1) by (simp add: poolInv_def)
  qed
  ultimately show ?thesis by simp
qed

lemma closePage_poolInv:
  assumes "poolInv s"
  shows "poolInv (closePage now resetOk closeOk p s)"
proof -
  let ?s = "s\<lparr> onLoan := remove1 p (onLoan s) \<rparr>"
  from assms have d: "distinct (onLoan s)" by (simp add: poolInv_def)
  then have pn: "p \<notin> set (onLoan ?s)" by simp
  have inv: "poolInv ?s" using assms notin_set_remove1 [of _ "onLoan s" p]
    by (auto simp: poolInv_def)
  show ?thesis
  proof (cases "find (\<lambda>item. page item = p) (pagePool ?s)")
    case None
    have "samePool ?s (closePage now resetOk closeOk p s)"
      using None pageClose_samePool [of ?s p] updatePageCount_samePool [of "pageClose p ?s"]
      by (auto simp: closePage_def Let_def samePool_def)
    with inv show ?thesis by (rule samePool_poolInv [rotated])
  next
    case (Some pageItem)
    then have "page pageItem = p" by (auto simp: find_Some_iff)
    with pn have "page pageItem \<notin> set (onLoan ?s)" by simp
    from returnPageToPool_poolInv [OF inv this] Some show ?thesis
      by (simp add: closePage_def Let_def)
  qed
qed

lemma cleanupPagePool_poolInv: "poolInv s \<Longrightarrow> poolInv (cleanupPagePool now closeFails s)"
  unfolding cleanupPagePool_def Let_def
  by (rule pool_foldl [where P = poolInv]) (simp_all add: removePageFromPool_poolInv)

lemma closeAllBrowsers_poolInv:
  assumes "poolInv s"
  shows "poolInv (closeAllBrowsers closeFails s)"
proof -
  let ?P = "\<lambda>t. onLoan t = onLoan s \<and> nextPageId t = nextPageId s"
  have "?P (foldl (\<lambda>s' pageItem.
                   if page pageItem \<notin> closedPages s' \<and> page pageItem \<notin> set closeFails
                   then pageClose (page pageItem) s' else s') s (pagePool s))"
    by (rule pool_foldl [where P = ?P])
       (auto simp: pageClose_def updatePageCount_def Let_def)
  with assms show ?thesis by (simp add: closeAllBrowsers_def Let_def poolInv_def)
qed

lemma resumeGetPage_poolInv:
  assumes "poolInv s"
  shows "poolInv (resumeGetPage now r outcomes created s)"
proof -
  obtain x s1 where c: "createNewPage now outcomes created s = (x, s1)" by fastforce
  note ci = createNewPage_poolInv [OF c assms]
  show ?thesis
  proof (cases x)
    case None
    with c ci show ?thesis by (simp add: resumeGetPage_def)
  next
    case (Some result)
    let ?s2 = "s1\<lparr> creating := remove1 r (creating s1), settled := settled s1 @ [(r, result)],
                  onLoan := (case result of Inl e \<Rightarrow> onLoan s1 | Inr p \<Rightarrow> onLoan s1 @ [p]),
                  activeRequests := activeRequests s1 - 1 \<rparr>"
    have "poolInv ?s2"
    proof (cases result)
      case (Inl e)
      with Some ci have "poolInv s1" by simp
      then show ?thesis using Inl by (simp add: poolInv_def)
    next
      case (Inr p)
      with Some ci have "poolInv (s1\<lparr> onLoan := onLoan s1 @ [p] \<rparr>)" by simp
      then show ?thesis using Inr by (simp add: poolInv_def)
    qed
    then have "poolInv (processNextQueuedRequest now ?s2)" by (rule processNext_poolInv)
    with Some c show ?thesis by (simp add: resumeGetPage_def Let_def)
  qed
qed

lemma step_poolInv:
  assumes "poolInv s"
  shows "poolInv (step e s)"
proof (cases e)
  case (InitializeBrowsers now failing)
  with assms initializeBrowsers_samePool [of s now failing] show ?thesis
    by (auto intro: samePool_poolInv)
next
  case (GetPage now)
  have "poolInv (s\<lparr> requestCount := Suc (requestCount s) \<rparr>)" using assms by (simp add: poolInv_def)
  with GetPage show ?thesis by (simp add: getPage_poolInv)
next
  case (ResumeGetPage now r outcomes created)
  with assms show ?thesis by (simp add: resumeGetPage_poolInv)
next
  case (ClosePage now resetOk closeOk p)
  with assms show ?thesis by (simp add: closePage_poolInv)
next
  case (CleanupPagePool now closeFails)
  with assms show ?thesis by (simp add: cleanupPagePool_poolInv)
next
  case (BrowserHealthCheck now outcomes)
  with assms performBrowserHealthCheck_samePool [of s now outcomes] show ?thesis
    by (auto intro: samePool_poolInv)
next
  case (RestartBrowsers now closeFails failing)
  have "poolInv (closeAllBrowsers closeFails s)" using assms by (rule closeAllBrowsers_poolInv)
  with initializeBrowsers_samePool [of "closeAllBrowsers closeFails s" now failing] RestartBrowsers
  show ?thesis by (auto simp: restartBrowsers_def intro: samePool_poolInv)
next
  case (BrowserDisconnected b)
  with assms show ?thesis by (simp add: onDisconnected_def poolInv_def)
next
  case (TargetDestroyed b)
  with assms show ?thesis by (simp add: onTargetDestroyed_def poolInv_def)
next
  case (PageClosed p)
  with assms pageClose_samePool [of s p] show ?thesis by (auto intro: samePool_poolInv)
qed

lemma exec_poolInv: "poolInv (exec evs emptyPool)"
  by (rule exec_induct) (simp_all add: step_poolInv, simp add: poolInv_def emptyPool_def)

lemma createNewPage_full_pool:
  assumes run: "createNewPage now ros co s = (x, s')" and full: "length (pagePool s) \<ge> pagePoolSize"
  shows "pagePool s' = pagePool s"
proof (rule createNewPage_rule [OF run, where P = "\<lambda>t::BrowserPool. pagePool t = pagePool s"])
  show "pagePool s = pagePool s" by simp
next
  fix t :: BrowserPool and ro b assume "pagePool t = pagePool s"
  then show "pagePool (replaceUnhealthyBrowser now ro b (t\<lparr>selections := Suc (selections t)\<rparr>)) = pagePool s"
    using replaceUnhealthyBrowser_samePool [of "t\<lparr>selections := Suc (selections t)\<rparr>" now ro b]
    by (simp add: samePool_def)
next
  fix t :: BrowserPool assume "pagePool t = pagePool s"
  then show "pagePool (t\<lparr>selections := Suc (selections t)\<rparr>) = pagePool s" by simp
next
  fix t :: BrowserPool and b :: BrowserInstance assume "pagePool t = pagePool s"
  then show "pagePool (t\<lparr>selections := Suc (selections t)\<rparr>) = pagePool s" by simp
next
  fix t :: BrowserPool and b y t'
  assume eq: "pagePool t = pagePool s" and sel: "selectBestBrowser (browsers t) = Some b"
    and nf: "\<not> activePages b \<ge> maxPagesPerBrowser" and c: "createNewPage now [] co t = (y, t')"
  from c [unfolded createNewPage_room [OF sel nf]] eq full
  show "pagePool t' = pagePool s"
    by (auto simp: Let_def split: if_splits)
qed

lemma closePage_not_pooled:
  assumes "find (\<lambda>item. page item = p) (pagePool s) = None"
  shows "pagePool (closePage now resetOk closeOk p s) = pagePool s"
    and "closeOk \<Longrightarrow> p \<in> closedPages (closePage now resetOk closeOk p s)"
  using assms by (auto simp: closePage_def Let_def pageClose_def updatePageCount_def)

text \<open>
  Claim C9. In every state that a run reaches, the page pool holds at most \<open>pagePoolSize\<close>
  items. \<open>createNewPage\<close> on a full pool leaves the pool as it is, and \<open>closePage\<close> on a
  page that is not in the pool leaves the pool as it is and closes the page (unless
  \<open>page.close()\<close> throws).
\<close>

theorem pagePool_never_exceeds_pagePoolSize:
  "length (pagePool (exec evs emptyPool)) \<le> pagePoolSize \<and>
   (length (pagePool s) \<ge> pagePoolSize \<longrightarrow>
      pagePool (snd (createNewPage now outcomes created s)) = pagePool s) \<and>
   (find (\<lambda>item. page item = p) (pagePool s) = None \<longrightarrow>
      pagePool (closePage now resetOk closeOk p s) = pagePool s \<and>
      (closeOk \<longrightarrow> p \<in> closedPages (closePage now resetOk closeOk p s)))"
proof -
  have "poolInv (exec evs emptyPool)" by (rule exec_poolInv)
  then have 1: "length (pagePool (exec evs emptyPool)) \<le> pagePoolSize" by (simp add: poolInv_def)
  have 2: "pagePool (snd (createNewPage now outcomes created s)) = pagePool s"
    if "length (pagePool s) \<ge> pagePoolSize"
    using createNewPage_full_pool [OF _ that, of now outcomes created]
    by (cases "createNewPage now outcomes created s") simp
  have 3: "pagePool (closePage now resetOk closeOk p s) = pagePool s \<and>
      (closeOk \<longrightarrow> p \<in> closedPages (closePage now resetOk closeOk p s))"
    if "find (\<lambda>item. page item = p) (pagePool s) = None"
    using closePage_not_pooled [OF that] by blast
  from 1 2 3 show ?thesis by blast
qed

theorem pagePool_never_exceeds_pagePoolSize_witness:
  "length (pagePool (exec
     [InitializeBrowsers 0 [], GetPage 1, ResumeGetPage 2 0 [] PageConfigured,
      GetPage 1, ResumeGetPage 2 1 [] PageConfigured, GetPage 1,
      ResumeGetPage 2 2 [] PageConfigured, GetPage 1,
      ResumeGetPage 2 3 [] PageConfigured, GetPage 1,
      ResumeGetPage 2 4 [] PageConfigured, GetPage 1,
      ResumeGetPage 2 5 [] PageConfigured, GetPage 1,
      ResumeGetPage 2 6 [] PageConfigured, GetPage 1,
      ResumeGetPage 2 7 [] PageConfigured, GetPage 1,
      ResumeGetPage 2 8 [] PageConfigured]
     emptyPool)) = pagePoolSize \<and>
   settled (exec
     [InitializeBrowsers 0 [], GetPage 1, ResumeGetPage 2 0 [] PageConfigured,
      GetPage 1, ResumeGetPage 2 1 [] PageConfigured, GetPage 1,
      ResumeGetPage 2 2 [] PageConfigured, GetPage 1,
      ResumeGetPage 2 3 [] PageConfigured, GetPage 1,
      ResumeGetPage 2 4 [] PageConfigured, GetPage 1,
      ResumeGetPage 2 5 [] PageConfigured, GetPage 1,
      ResumeGetPage 2 6 [] PageConfigured, GetPage 1,
      ResumeGetPage 2 7 [] PageConfigured, GetPage 1,
      ResumeGetPage 2 8 [] PageConfigured]
     emptyPool) ! 8 = (8, Inr \<lparr> pageId = 8, pageBrowser = 2 \<rparr>) \<and>
   find (\<lambda>item. page item = \<lparr> pageId = 8, pageBrowser = 2 \<rparr>) (pagePool (exec
     [InitializeBrowsers 0 [], GetPage 1, ResumeGetPage 2 0 [] PageConfigured,
      GetPage 1, ResumeGetPage 2 1 [] PageConfigured, GetPage 1,
      ResumeGetPage 2 2 [] PageConfigured, GetPage 1,
      ResumeGetPage 2 3 [] PageConfigured, GetPage 1,
      ResumeGetPage 2 4 [] PageConfigured, GetPage 1,
      ResumeGetPage 2 5 [] PageConfigured, GetPage 1,
      ResumeGetPage 2 6 [] PageConfigured, GetPage 1,
      ResumeGetPage 2 7 [] PageConfigured, GetPage 1,
      ResumeGetPage 2 8 [] PageConfigured]
     emptyPool)) = None \<and>
   length (pagePool (snd (createNewPage 3 [] PageConfigured (exec
     [InitializeBrowsers 0 [], GetPage 1, ResumeGetPage 2 0 [] PageConfigured,
      GetPage 1, ResumeGetPage 2 1 [] PageConfigured, GetPage 1,
      ResumeGetPage 2 2 [] PageConfigured, GetPage 1,
      ResumeGetPage 2 3 [] PageConfigured, GetPage 1,
      ResumeGetPage 2 4 [] PageConfigured, GetPage 1,
      ResumeGetPage 2 5 [] PageConfigured, GetPage 1,
      ResumeGetPage 2 6 [] PageConfigured, GetPage 1,
      ResumeGetPage 2 7 [] PageConfigured, GetPage 1,
      ResumeGetPage 2 8 [] PageConfigured]
     emptyPool)))) = pagePoolSize \<and>
   length (pagePool (closePage 3 True True \<lparr> pageId = 8, pageBrowser = 2 \<rparr> (exec
     [InitializeBrowsers 0 [], GetPage 1, ResumeGetPage 2 0 [] PageConfigured,
      GetPage 1, ResumeGetPage 2 1 [] PageConfigured, GetPage 1,
      ResumeGetPage 2 2 [] PageConfigured, GetPage 1,
      ResumeGetPage 2 3 [] PageConfigured, GetPage 1,
      ResumeGetPage 2 4 [] PageConfigured, GetPage 1,
      ResumeGetPage 2 5 [] PageConfigured, GetPage 1,
      ResumeGetPage 2 6 [] PageConfigured, GetPage 1,
      ResumeGetPage 2 7 [] PageConfigured, GetPage 1,
      ResumeGetPage 2 8 [] PageConfigured]
     emptyPool))) = pagePoolSize \<and>
   \<lparr> pageId = 8, pageBrowser = 2 \<rparr> \<in> closedPages (closePage 3 True True \<lparr> pageId = 8, pageBrowser = 2 \<rparr> (exec
     [InitializeBrowsers 0 [], GetPage 1, ResumeGetPage 2 0 [] PageConfigured,
      GetPage 1, ResumeGetPage 2 1 [] PageConfigured, GetPage 1,
      ResumeGetPage 2 2 [] PageConfigured, GetPage 1,
      ResumeGetPage 2 3 [] PageConfigured, GetPage 1,
      ResumeGetPage 2 4 [] PageConfigured, GetPage 1,
      ResumeGetPage 2 5 [] PageConfigured, GetPage 1,
      ResumeGetPage 2 6 [] PageConfigured, GetPage 1,
      ResumeGetPage 2 7 [] PageConfigured, GetPage 1,
      ResumeGetPage 2 8 [] PageConfigured]
     emptyPool))"
proof -
  let ?s = "exec
     [InitializeBrowsers 0 [], GetPage 1, ResumeGetPage 2 0 [] PageConfigured,
      GetPage 1, ResumeGetPage 2 1 [] PageConfigured, GetPage 1,
      ResumeGetPage 2 2 [] PageConfigured, GetPage 1,
      ResumeGetPage 2 3 [] PageConfigured, GetPage 1,
      ResumeGetPage 2 4 [] PageConfigured, GetPage 1,
      ResumeGetPage 2 5 [] PageConfigured, GetPage 1,
      ResumeGetPage 2 6 [] PageConfigured, GetPage 1,
      ResumeGetPage 2 7 [] PageConfigured, GetPage 1,
      ResumeGetPage 2 8 [] PageConfigured]
     emptyPool"
  have l: "length (pagePool ?s) = pagePoolSize" by code_simp
  have d: "settled ?s ! 8 = (8, Inr \<lparr> pageId = 8, pageBrowser = 2 \<rparr>)" by code_simp
  have f: "find (\<lambda>item. page item = \<lparr> pageId = 8, pageBrowser = 2 \<rparr>) (pagePool ?s) = None"
    by code_simp
  from pagePool_never_exceeds_pagePoolSize
         [of "[InitializeBrowsers 0 [], GetPage 1, ResumeGetPage 2 0 [] PageConfigured,
      GetPage 1, ResumeGetPage 2 1 [] PageConfigured, GetPage 1,
      ResumeGetPage 2 2 [] PageConfigured, GetPage 1,
      ResumeGetPage 2 3 [] PageConfigured, GetPage 1,
      ResumeGetPage 2 4 [] PageConfigured, GetPage 1,
      ResumeGetPage 2 5 [] PageConfigured, GetPage 1,
      ResumeGetPage 2 6 [] PageConfigured, GetPage 1,
      ResumeGetPage 2 7 [] PageConfigured, GetPage 1,
      ResumeGetPage 2 8 [] PageConfigured]" ?s 3 "[]" PageConfigured "\<lparr> pageId = 8, pageBrowser = 2 \<rparr>" True True] l f
  have "pagePool (snd (createNewPage 3 [] PageConfigured ?s)) = pagePool ?s \<and>
        pagePool (closePage 3 True True \<lparr> pageId = 8, pageBrowser = 2 \<rparr> ?s) = pagePool ?s \<and>
        \<lparr> pageId = 8, pageBrowser = 2 \<rparr> \<in> closedPages (closePage 3 True True \<lparr> pageId = 8, pageBrowser = 2 \<rparr> ?s)"
    by simp
  with l d f show ?thesis by simp
qed















subsection \<open>Replacing a full browser\<close>









subsection \<open>Page counts after a release\<close>

text \<open>
  Claim C4, at a failing input. Ten pages have been created, on browsers 0, 1, 2, 0, 1, 2 and
  so on; the first eight are in the pool. Page 1, created by browser 1, is released and its
  reset fails. The item leaves the pool, as the claim says. But the page count of browser 1
  stays at 3, and that of browser 0 drops from 4 to 2: the \<open>close\<close> listener and
  \<open>removePageFromPool\<close> each lower the count of the first connected browser, whichever
  browser the page belongs to. Only when Puppeteer reports the destroyed target does the
  \<open>targetdestroyed\<close> listener of browser 1 lower that browser's count.
\<close>

theorem reset_failure_decrements_wrong_browser:
  "map page (take 2 (pagePool (exec
     [InitializeBrowsers 0 [], GetPage 1, ResumeGetPage 2 0 [] PageConfigured,
      GetPage 1, ResumeGetPage 2 1 [] PageConfigured, GetPage 1,
      ResumeGetPage 2 2 [] PageConfigured, GetPage 1,
      ResumeGetPage 2 3 [] PageConfigured, GetPage 1,
      ResumeGetPage 2 4 [] PageConfigured, GetPage 1,
      ResumeGetPage 2 5 [] PageConfigured, GetPage 1,
      ResumeGetPage 2 6 [] PageConfigured, GetPage 1,
      ResumeGetPage 2 7 [] PageConfigured, GetPage 1,
      ResumeGetPage 2 8 [] PageConfigured, GetPage 1,
      ResumeGetPage 2 9 [] PageConfigured]
     emptyPool))) =
     [\<lparr> pageId = 0, pageBrowser = 0 \<rparr>, \<lparr> pageId = 1, pageBrowser = 1 \<rparr>] \<and>
   map activePages (browsers (exec
     [InitializeBrowsers 0 [], GetPage 1, ResumeGetPage 2 0 [] PageConfigured,
      GetPage 1, ResumeGetPage 2 1 [] PageConfigured, GetPage 1,
      ResumeGetPage 2 2 [] PageConfigured, GetPage 1,
      ResumeGetPage 2 3 [] PageConfigured, GetPage 1,
      ResumeGetPage 2 4 [] PageConfigured, GetPage 1,
      ResumeGetPage 2 5 [] PageConfigured, GetPage 1,
      ResumeGetPage 2 6 [] PageConfigured, GetPage 1,
      ResumeGetPage 2 7 [] PageConfigured, GetPage 1,
      ResumeGetPage 2 8 [] PageConfigured, GetPage 1,
      ResumeGetPage 2 9 [] PageConfigured]
     emptyPool)) = [4, 3, 3] \<and>
   map isConnected (browsers (exec
     [InitializeBrowsers 0 [], GetPage 1, ResumeGetPage 2 0 [] PageConfigured,
      GetPage 1, ResumeGetPage 2 1 [] PageConfigured, GetPage 1,
      ResumeGetPage 2 2 [] PageConfigured, GetPage 1,
      ResumeGetPage 2 3 [] PageConfigured, GetPage 1,
      ResumeGetPage 2 4 [] PageConfigured, GetPage 1,
      ResumeGetPage 2 5 [] PageConfigured, GetPage 1,
      ResumeGetPage 2 6 [] PageConfigured, GetPage 1,
      ResumeGetPage 2 7 [] PageConfigured, GetPage 1,
      ResumeGetPage 2 8 [] PageConfigured, GetPage 1,
      ResumeGetPage 2 9 [] PageConfigured]
     emptyPool)) = [True, True, True] \<and>
   find (\<lambda>item. page item = \<lparr> pageId = 1, pageBrowser = 1 \<rparr>) (pagePool (closePage 3 False True \<lparr> pageId = 1, pageBrowser = 1 \<rparr> (exec
     [InitializeBrowsers 0 [], GetPage 1, ResumeGetPage 2 0 [] PageConfigured,
      GetPage 1, ResumeGetPage 2 1 [] PageConfigured, GetPage 1,
      ResumeGetPage 2 2 [] PageConfigured, GetPage 1,
      ResumeGetPage 2 3 [] PageConfigured, GetPage 1,
      ResumeGetPage 2 4 [] PageConfigured, GetPage 1,
      ResumeGetPage 2 5 [] PageConfigured, GetPage 1,
      ResumeGetPage 2 6 [] PageConfigured, GetPage 1,
      ResumeGetPage 2 7 [] PageConfigured, GetPage 1,
      ResumeGetPage 2 8 [] PageConfigured, GetPage 1,
      ResumeGetPage 2 9 [] PageConfigured]
     emptyPool))) = None \<and>
   map activePages (browsers (closePage 3 False True \<lparr> pageId = 1, pageBrowser = 1 \<rparr> (exec
     [InitializeBrowsers 0 [], GetPage 1, ResumeGetPage 2 0 [] PageConfigured,
      GetPage 1, ResumeGetPage 2 1 [] PageConfigured, GetPage 1,
      ResumeGetPage 2 2 [] PageConfigured, GetPage 1,
      ResumeGetPage 2 3 [] PageConfigured, GetPage 1,
      ResumeGetPage 2 4 [] PageConfigured, GetPage 1,
      ResumeGetPage 2 5 [] PageConfigured, GetPage 1,
      ResumeGetPage 2 6 [] PageConfigured, GetPage 1,
      ResumeGetPage 2 7 [] PageConfigured, GetPage 1,
      ResumeGetPage 2 8 [] PageConfigured, GetPage 1,
      ResumeGetPage 2 9 [] PageConfigured]
     emptyPool))) = [2, 3, 3] \<and>
   map activePages (browsers (step (TargetDestroyed 1) (closePage 3 False True \<lparr> pageId = 1, pageBrowser = 1 \<rparr> (exec
     [InitializeBrowsers 0 [], GetPage 1, ResumeGetPage 2 0 [] PageConfigured,
      GetPage 1, ResumeGetPage 2 1 [] PageConfigured, GetPage 1,
      ResumeGetPage 2 2 [] PageConfigured, GetPage 1,
      ResumeGetPage 2 3 [] PageConfigured, GetPage 1,
      ResumeGetPage 2 4 [] PageConfigured, GetPage 1,
      ResumeGetPage 2 5 [] PageConfigured, GetPage 1,
      ResumeGetPage 2 6 [] PageConfigured, GetPage 1,
      ResumeGetPage 2 7 [] PageConfigured, GetPage 1,
      ResumeGetPage 2 8 [] PageConfigured, GetPage 1,
      ResumeGetPage 2 9 [] PageConfigured]
     emptyPool))))
     = [2, 2, 3]"
  by code_simp

text \<open>
  Claim C5, at a failing input. In the same state the tenth page, created by browser 0, is
  not in the pool. One \<open>closePage\<close> on it lowers the count of browser 0 from 4 to 2: once by
  the \<open>close\<close> listener and once by \<open>closePage\<close> itself; the \<open>targetdestroyed\<close> listener of
  browser 0 lowers it once more when Puppeteer reports the destroyed target. A second
  \<open>closePage\<close> on the same page changes nothing more, since the page is closed by then.
\<close>

theorem single_release_decrements_twice:
  "settled (exec
     [InitializeBrowsers 0 [], GetPage 1, ResumeGetPage 2 0 [] PageConfigured,
      GetPage 1, ResumeGetPage 2 1 [] PageConfigured, GetPage 1,
      ResumeGetPage 2 2 [] PageConfigured, GetPage 1,
      ResumeGetPage 2 3 [] PageConfigured, GetPage 1,
      ResumeGetPage 2 4 [] PageConfigured, GetPage 1,
      ResumeGetPage 2 5 [] PageConfigured, GetPage 1,
      ResumeGetPage 2 6 [] PageConfigured, GetPage 1,
      ResumeGetPage 2 7 [] PageConfigured, GetPage 1,
      ResumeGetPage 2 8 [] PageConfigured, GetPage 1,
      ResumeGetPage 2 9 [] PageConfigured]
     emptyPool) ! 9 = (9, Inr \<lparr> pageId = 9, pageBrowser = 0 \<rparr>) \<and>
   find (\<lambda>item. page item = \<lparr> pageId = 9, pageBrowser = 0 \<rparr>) (pagePool (exec
     [InitializeBrowsers 0 [], GetPage 1, ResumeGetPage 2 0 [] PageConfigured,
      GetPage 1, ResumeGetPage 2 1 [] PageConfigured, GetPage 1,
      ResumeGetPage 2 2 [] PageConfigured, GetPage 1,
      ResumeGetPage 2 3 [] PageConfigured, GetPage 1,
      ResumeGetPage 2 4 [] PageConfigured, GetPage 1,
      ResumeGetPage 2 5 [] PageConfigured, GetPage 1,
      ResumeGetPage 2 6 [] PageConfigured, GetPage 1,
      ResumeGetPage 2 7 [] PageConfigured, GetPage 1,
      ResumeGetPage 2 8 [] PageConfigured, GetPage 1,
      ResumeGetPage 2 9 [] PageConfigured]
     emptyPool)) = None \<and>
   map activePages (browsers (exec
     [InitializeBrowsers 0 [], GetPage 1, ResumeGetPage 2 0 [] PageConfigured,
      GetPage 1, ResumeGetPage 2 1 [] PageConfigured, GetPage 1,
      ResumeGetPage 2 2 [] PageConfigured, GetPage 1,
      ResumeGetPage 2 3 [] PageConfigured, GetPage 1,
      ResumeGetPage 2 4 [] PageConfigured, GetPage 1,
      ResumeGetPage 2 5 [] PageConfigured, GetPage 1,
      ResumeGetPage 2 6 [] PageConfigured, GetPage 1,
      ResumeGetPage 2 7 [] PageConfigured, GetPage 1,
      ResumeGetPage 2 8 [] PageConfigured, GetPage 1,
      ResumeGetPage 2 9 [] PageConfigured]
     emptyPool)) = [4, 3, 3] \<and>
   map activePages (browsers (closePage 3 True True \<lparr> pageId = 9, pageBrowser = 0 \<rparr> (exec
     [InitializeBrowsers 0 [], GetPage 1, ResumeGetPage 2 0 [] PageConfigured,
      GetPage 1, ResumeGetPage 2 1 [] PageConfigured, GetPage 1,
      ResumeGetPage 2 2 [] PageConfigured, GetPage 1,
      ResumeGetPage 2 3 [] PageConfigured, GetPage 1,
      ResumeGetPage 2 4 [] PageConfigured, GetPage 1,
      ResumeGetPage 2 5 [] PageConfigured, GetPage 1,
      ResumeGetPage 2 6 [] PageConfigured, GetPage 1,
      ResumeGetPage 2 7 [] PageConfigured, GetPage 1,
      ResumeGetPage 2 8 [] PageConfigured, GetPage 1,
      ResumeGetPage 2 9 [] PageConfigured]
     emptyPool))) = [2, 3, 3] \<and>
   map activePages (browsers (step (TargetDestroyed 0) (closePage 3 True True \<lparr> pageId = 9, pageBrowser = 0 \<rparr> (exec
     [InitializeBrowsers 0 [], GetPage 1, ResumeGetPage 2 0 [] PageConfigured,
      GetPage 1, ResumeGetPage 2 1 [] PageConfigured, GetPage 1,
      ResumeGetPage 2 2 [] PageConfigured, GetPage 1,
      ResumeGetPage 2 3 [] PageConfigured, GetPage 1,
      ResumeGetPage 2 4 [] PageConfigured, GetPage 1,
      ResumeGetPage 2 5 [] PageConfigured, GetPage 1,
      ResumeGetPage 2 6 [] PageConfigured, GetPage 1,
      ResumeGetPage 2 7 [] PageConfigured, GetPage 1,
      ResumeGetPage 2 8 [] PageConfigured, GetPage 1,
      ResumeGetPage 2 9 [] PageConfigured]
     emptyPool))))
     = [1, 3, 3] \<and>
   map activePages (browsers (closePage 4 True True \<lparr> pageId = 9, pageBrowser = 0 \<rparr> (closePage 3 True True \<lparr> pageId = 9, pageBrowser = 0 \<rparr> (exec
     [InitializeBrowsers 0 [], GetPage 1, ResumeGetPage 2 0 [] PageConfigured,
      GetPage 1, ResumeGetPage 2 1 [] PageConfigured, GetPage 1,
      ResumeGetPage 2 2 [] PageConfigured, GetPage 1,
      ResumeGetPage 2 3 [] PageConfigured, GetPage 1,
      ResumeGetPage 2 4 [] PageConfigured, GetPage 1,
      ResumeGetPage 2 5 [] PageConfigured, GetPage 1,
      ResumeGetPage 2 6 [] PageConfigured, GetPage 1,
      ResumeGetPage 2 7 [] PageConfigured, GetPage 1,
      ResumeGetPage 2 8 [] PageConfigured, GetPage 1,
      ResumeGetPage 2 9 [] PageConfigured]
     emptyPool))))
     = [2, 3, 3]"
  by code_simp

end
